theory Spec2Isabelle
  imports Complex_Main "HOL-Library.Sublist" "HOL-Library.Multiset"
begin

section \<open>Python strings, floats and the interpreter's tables\<close>

text \<open>
  A Python \<open>str\<close> is a sequence of Unicode code points, and \<open>len\<close> counts code points.
  A string is therefore a list of code points (natural numbers); \<open>py\<close> turns an ASCII
  literal into such a list, so that \<open>py ''...''\<close> is the Python literal \<open>"..."\<close>.
\<close>

type_synonym pystr = "nat list"

definition py :: "string \<Rightarrow> pystr" where
  "py s = map of_char s"

text \<open>
  A Python \<open>float\<close> is an IEEE double: a finite value (a real number), an infinity or
  NaN. \<open><\<close> and \<open>>=\<close> on floats are exact on the finite values and false whenever an
  operand is NaN.
\<close>

datatype pyfloat = Finite real | PosInf | NegInf | NaN

fun float_lt :: "pyfloat \<Rightarrow> pyfloat \<Rightarrow> bool" where
  "float_lt (Finite a) (Finite b) = (a < b)"
| "float_lt (Finite a) PosInf = True"
| "float_lt NegInf (Finite b) = True"
| "float_lt NegInf PosInf = True"
| "float_lt _ _ = False"

fun is_nan :: "pyfloat \<Rightarrow> bool" where
  "is_nan NaN = True"
| "is_nan _ = False"

definition float_ge :: "pyfloat \<Rightarrow> pyfloat \<Rightarrow> bool" where
  "float_ge a b = (\<not> is_nan a \<and> \<not> is_nan b \<and> \<not> float_lt a b)"

text \<open>
  \<open>str.isspace\<close>, \<open>str.isupper\<close>, \<open>str.lower\<close> and the regular expression classes
  \<open>\s\<close>, \<open>\w\<close>, \<open>\d\<close> read the Unicode database of the interpreter, which is not part of
  the repository. The functions below take these tables as a parameter \<open>U\<close>:
  \<^item> \<open>uni_space\<close>: the code points for which \<open>str.isspace\<close> holds (also the class \<open>\s\<close>
    and the characters \<open>str.strip()\<close> and \<open>str.split()\<close> remove);
  \<^item> \<open>uni_word\<close>: the class \<open>\w\<close>;
  \<^item> \<open>uni_digit\<close>: the class \<open>\d\<close>;
  \<^item> \<open>uni_roman\<close>: what the class \<open>[ivxlcdm]\<close> matches under \<open>re.IGNORECASE\<close>;
  \<^item> \<open>uni_isupper\<close>: \<open>str.isupper\<close> on a whole string;
  \<^item> \<open>uni_lower\<close>: \<open>str.lower\<close> on a whole string (it may change the length).

  The float product \<open>max_rerank * 0.55\<close> is rounded by the interpreter; it is the last
  parameter, \<open>float_times_055\<close>.
\<close>

record interpreter =
  uni_space :: "nat \<Rightarrow> bool"
  uni_word :: "nat \<Rightarrow> bool"
  uni_digit :: "nat \<Rightarrow> bool"
  uni_roman :: "nat \<Rightarrow> bool"
  uni_isupper :: "pystr \<Rightarrow> bool"
  uni_lower :: "pystr \<Rightarrow> pystr"
  float_times_055 :: "pyfloat \<Rightarrow> pyfloat"

text \<open>
  The tables of CPython restricted to the code points below 128; every other code point
  is taken as a caseless symbol. It agrees with the interpreter on ASCII strings and is
  used only to evaluate the functions at ASCII inputs. Its float product is the product
  without rounding; the examples compare no score that is close to the threshold.
\<close>

definition ascii_upper :: "nat \<Rightarrow> bool" where
  "ascii_upper c = (65 \<le> c \<and> c \<le> 90)"

definition ascii_lower :: "nat \<Rightarrow> bool" where
  "ascii_lower c = (97 \<le> c \<and> c \<le> 122)"

definition exact_times_055 :: "pyfloat \<Rightarrow> pyfloat" where
  "exact_times_055 x =
     (case x of Finite r \<Rightarrow> Finite (r * 0.55) | PosInf \<Rightarrow> PosInf | NegInf \<Rightarrow> NegInf
      | NaN \<Rightarrow> NaN)"

definition ascii_db :: interpreter where
  "ascii_db =
     \<lparr> uni_space = (\<lambda>c. (9 \<le> c \<and> c \<le> 13) \<or> (28 \<le> c \<and> c \<le> 32)),
       uni_word = (\<lambda>c. (48 \<le> c \<and> c \<le> 57) \<or> ascii_upper c \<or> ascii_lower c \<or> c = 95),
       uni_digit = (\<lambda>c. 48 \<le> c \<and> c \<le> 57),
       uni_roman = (\<lambda>c. c \<in> set (py ''ivxlcdmIVXLCDM'')),
       uni_isupper = (\<lambda>s. list_ex ascii_upper s \<and> \<not> list_ex ascii_lower s),
       uni_lower = map (\<lambda>c. if ascii_upper c then c + 32 else c),
       float_times_055 = exact_times_055 \<rparr>"

subsection \<open>String operations\<close>

text \<open>\<open>s.strip()\<close>: leading and trailing whitespace removed.\<close>

definition strip :: "interpreter \<Rightarrow> pystr \<Rightarrow> pystr" where
  "strip U s = rev (dropWhile (uni_space U) (rev (dropWhile (uni_space U) s)))"

text \<open>\<open>s.split(sep)\<close> for a one-character separator: always at least one piece.\<close>

fun split_on :: "nat \<Rightarrow> pystr \<Rightarrow> pystr list" where
  "split_on c [] = [[]]"
| "split_on c (x # xs) =
     (if x = c then [] # split_on c xs
      else (case split_on c xs of [] \<Rightarrow> [[x]] | w # ws \<Rightarrow> (x # w) # ws))"

text \<open>
  \<open>re.findall\<close> of a pattern \<open>[class]+\<close>: the maximal runs of characters of the class,
  from left to right. \<open>cur\<close> is the run being read.
\<close>

fun findall_runs_from :: "(nat \<Rightarrow> bool) \<Rightarrow> pystr \<Rightarrow> pystr \<Rightarrow> pystr list" where
  "findall_runs_from cls cur [] = (if cur = [] then [] else [cur])"
| "findall_runs_from cls cur (x # xs) =
     (if cls x then findall_runs_from cls (cur @ [x]) xs
      else (if cur = [] then [] else [cur]) @ findall_runs_from cls [] xs)"

definition findall_runs :: "(nat \<Rightarrow> bool) \<Rightarrow> pystr \<Rightarrow> pystr list" where
  "findall_runs cls s = findall_runs_from cls [] s"

text \<open>\<open>s.split()\<close> without argument: the maximal runs of non-whitespace characters.\<close>

definition split_ws :: "interpreter \<Rightarrow> pystr \<Rightarrow> pystr list" where
  "split_ws U s = findall_runs (\<lambda>c. \<not> uni_space U c) s"

text \<open>\<open>sep.join(parts)\<close>.\<close>

fun join :: "pystr \<Rightarrow> pystr list \<Rightarrow> pystr" where
  "join sep [] = []"
| "join sep [x] = x"
| "join sep (x # y # ys) = x @ sep @ join sep (y # ys)"

text \<open>
  \<open>re.sub\<close> of a pattern \<open>c{n,}\<close> (a run of at least \<open>n\<close> copies of the character \<open>c\<close>,
  \<open>n\<close> positive) by \<open>repl\<close>: scanning from the left, a maximal run of \<open>c\<close> that is long
  enough is replaced as a whole, every other character is copied.
\<close>

function sub_runs :: "nat \<Rightarrow> nat \<Rightarrow> pystr \<Rightarrow> pystr \<Rightarrow> pystr" where
  "sub_runs c n repl [] = []"
| "sub_runs c n repl (x # xs) =
     (if x = c \<and> n \<le> Suc (length (takeWhile (\<lambda>y. y = c) xs))
      then repl @ sub_runs c n repl (dropWhile (\<lambda>y. y = c) xs)
      else x # sub_runs c n repl xs)"
  by pat_completeness auto
termination
  by (relation "measure (\<lambda>(c, n, repl, s). length s)")
     (auto simp: le_imp_less_Suc length_dropWhile_le)

text \<open>
  \<open>xs[:k]\<close> for a Python integer \<open>k\<close>: the first \<open>k\<close> elements, and for a negative \<open>k\<close>
  all but the last \<open>-k\<close>.
\<close>

definition py_prefix :: "int \<Rightarrow> 'a list \<Rightarrow> 'a list" where
  "py_prefix k xs = (if 0 \<le> k then take (nat k) xs else take (length xs - nat (- k)) xs)"

text \<open>\<open>s[-k:]\<close> for a positive \<open>k\<close>: the last \<open>k\<close> characters (all of \<open>s\<close> when it is shorter).\<close>

definition py_tail :: "int \<Rightarrow> 'a list \<Rightarrow> 'a list" where
  "py_tail k xs = drop (length xs - nat k) xs"

section \<open>The sanitizer\<close>

text \<open>The class \<open>[\x00-\x08\x0B\x0C\x0E-\x1F]\<close> of the first substitution.\<close>

definition pdf_control :: "nat \<Rightarrow> bool" where
  "pdf_control c = (c \<le> 8 \<or> c = 11 \<or> c = 12 \<or> (14 \<le> c \<and> c \<le> 31))"

text \<open>The class \<open>[\w\s\-\.,!?:;()&\'"\n]\<close> whose complement the second substitution removes.\<close>

definition pdf_allowed :: "interpreter \<Rightarrow> nat \<Rightarrow> bool" where
  "pdf_allowed U c =
     (uni_word U c \<or> uni_space U c \<or> c \<in> set (py ''-.,!?:;()&'') \<or> c = 39 \<or> c = 34 \<or> c = 10)"

definition clean_pdf_artifacts :: "interpreter \<Rightarrow> pystr \<Rightarrow> pystr" where
  "clean_pdf_artifacts U text0 =
     (let t1 = filter (\<lambda>c. \<not> pdf_control c) text0;
          t2 = filter (pdf_allowed U) t1;
          t3 = sub_runs 32 1 [32] t2;
          t4 = sub_runs 10 3 [10, 10] t3
      in strip U t4)"

section \<open>The semantic chunker\<close>

text \<open>
  The pattern \<open>^(\d+\.|[ivxlcdm]+\.|[\<bullet>\-*])\s+\<close> of \<open>is_heading\<close>, matched at the start of
  the stripped line. \<open>run_dot_space cls sp s\<close>: \<open>s\<close> continues a run of \<open>cls\<close> characters
  up to a dot that a whitespace character follows.
\<close>

fun run_dot_space :: "(nat \<Rightarrow> bool) \<Rightarrow> (nat \<Rightarrow> bool) \<Rightarrow> pystr \<Rightarrow> bool" where
  "run_dot_space cls sp [] = False"
| "run_dot_space cls sp (x # xs) =
     ((x = 46 \<and> xs \<noteq> [] \<and> sp (hd xs)) \<or> (cls x \<and> run_dot_space cls sp xs))"

definition numbered_prefix :: "(nat \<Rightarrow> bool) \<Rightarrow> (nat \<Rightarrow> bool) \<Rightarrow> pystr \<Rightarrow> bool" where
  "numbered_prefix cls sp s = (s \<noteq> [] \<and> cls (hd s) \<and> run_dot_space cls sp (tl s))"

definition bullet_match :: "interpreter \<Rightarrow> pystr \<Rightarrow> bool" where
  "bullet_match U s =
     (numbered_prefix (uni_digit U) (uni_space U) s
      \<or> numbered_prefix (uni_roman U) (uni_space U) s
      \<or> (s \<noteq> [] \<and> (hd s = 8226 \<or> hd s = 45 \<or> hd s = 42)
          \<and> tl s \<noteq> [] \<and> uni_space U (hd (tl s))))"

definition is_heading :: "interpreter \<Rightarrow> pystr \<Rightarrow> bool" where
  "is_heading U line =
     (if length line > 180 then False
      else if line \<noteq> [] \<and> hd line = 35 then True
      else if uni_isupper U line \<and> length (split_ws U line) \<le> 8 then True
      else if bullet_match U (strip U line) then length line \<le> 160
      else if line \<noteq> [] \<and> uni_isupper U [hd line] \<and> length (split_ws U line) \<le> 6 then True
      else False)"

text \<open>The variables of the loop over the lines.\<close>

record chunker =
  chunks :: "pystr list"
  current_chunk :: "pystr list"
  current_chunk_len :: int
  last_header :: pystr

text \<open>
  The text of a closed chunk: the fragments joined by single spaces, after the last
  header on a line of its own when the header is set and does not occur in them.
\<close>

definition chunk_text_of :: "pystr \<Rightarrow> pystr list \<Rightarrow> pystr" where
  "chunk_text_of header fragments =
     (if header \<noteq> [] \<and> \<not> sublist header (join [32] fragments)
      then header @ [10] @ join [32] fragments
      else join [32] fragments)"

text \<open>The body of \<open>for sent in sentences\<close>.\<close>

definition add_sentence ::
  "interpreter \<Rightarrow> int \<Rightarrow> int \<Rightarrow> bool \<Rightarrow> chunker \<Rightarrow> pystr \<Rightarrow> chunker" where
  "add_sentence U chunk_size overlap heading st sent0 =
     (let sent = strip U sent0 in
      if sent = [] \<or> length sent < 3 then st
      else
        (let sent_with_context =
               (if \<not> heading \<and> last_header st \<noteq> [] then last_header st @ py '': '' @ sent
                else sent);
             new_len = current_chunk_len st + int (length sent_with_context) + 1;
             st1 =
               (if new_len > chunk_size \<and> current_chunk st \<noteq> [] then
                  (let chunk_text = chunk_text_of (last_header st) (current_chunk st);
                       overlap_buf = (if overlap > 0 \<and> \<not> heading
                                      then [py_tail overlap chunk_text] else [])
                   in st\<lparr>chunks := chunks st @ [chunk_text],
                         current_chunk := overlap_buf,
                         current_chunk_len := int (sum_list (map length overlap_buf))\<rparr>)
                else st)
         in st1\<lparr>current_chunk := current_chunk st1 @ [sent_with_context],
                current_chunk_len := new_len\<rparr>))"

text \<open>
  The sentences of a line: \<open>nltk.sent_tokenize\<close> is an external collaborator, \<open>None\<close> when
  it raises (the line is then its own sentence).
\<close>

definition sentences_of :: "(pystr \<Rightarrow> pystr list option) \<Rightarrow> bool \<Rightarrow> pystr \<Rightarrow> pystr list" where
  "sentences_of sent_tokenize heading line =
     (if heading then [line]
      else (case sent_tokenize line of Some ss \<Rightarrow> ss | None \<Rightarrow> [line]))"

text \<open>The body of \<open>for raw_line in lines\<close>.\<close>

definition process_line ::
  "interpreter \<Rightarrow> (pystr \<Rightarrow> pystr list option) \<Rightarrow> int \<Rightarrow> int \<Rightarrow> chunker \<Rightarrow> pystr \<Rightarrow> chunker" where
  "process_line U sent_tokenize chunk_size overlap st raw_line =
     (let line = strip U raw_line in
      if line = [] then st
      else
        (let heading = is_heading U line;
             st1 = (if heading \<and> current_chunk st \<noteq> [] then
                      st\<lparr>chunks := chunks st @ [chunk_text_of (last_header st) (current_chunk st)],
                         current_chunk := [],
                         current_chunk_len := 0\<rparr>
                    else st);
             st2 = (if heading then st1\<lparr>last_header := line\<rparr> else st1)
         in foldl (add_sentence U chunk_size overlap heading) st2
              (sentences_of sent_tokenize heading line)))"

definition chunker_init :: chunker where
  "chunker_init = \<lparr>chunks = [], current_chunk = [], current_chunk_len = 0, last_header = []\<rparr>"

text \<open>The chunks after the loop: the open chunk, when there is one, is closed.\<close>

definition final_chunks :: "chunker \<Rightarrow> pystr list" where
  "final_chunks st =
     (if current_chunk st \<noteq> []
      then chunks st @ [chunk_text_of (last_header st) (current_chunk st)]
      else chunks st)"

definition split_text_semantic ::
  "interpreter \<Rightarrow> (pystr \<Rightarrow> pystr list option) \<Rightarrow> pystr \<Rightarrow> int \<Rightarrow> int \<Rightarrow> pystr list" where
  "split_text_semantic U sent_tokenize text0 chunk_size overlap =
     (let t = clean_pdf_artifacts U text0 in
      if t = [] \<or> int (length t) \<le> chunk_size then (if t \<noteq> [] then [t] else [])
      else
        (let st = foldl (process_line U sent_tokenize chunk_size overlap) chunker_init
                    (split_on 10 t);
             result = final_chunks st
         in if result \<noteq> [] then result else [t]))"

section \<open>Documents and collaborators\<close>

text \<open>
  A document is a dictionary decoded from JSON; every key is optional (\<open>None\<close>: the key is
  absent). The fields are those of the data model; \<open>'v\<close> is the type of the values an
  \<open>id\<close> may hold. Documents of a request are distinct objects, so the in-place update
  \<open>doc['rerank_score'] = ...\<close> is an update of the list element.
\<close>

record 'v document =
  doc_id :: "'v option"
  doc_text :: "pystr option"
  doc_score :: "pyfloat option"
  rerank_score :: "pyfloat option"
  file_name :: "pystr option"
  chunk_index :: "int option"

text \<open>\<open>doc.get('text', '')\<close>\<close>

definition text_of :: "'v document \<Rightarrow> pystr" where
  "text_of doc = (case doc_text doc of None \<Rightarrow> [] | Some t \<Rightarrow> t)"

text \<open>\<open>doc.get('rerank_score', 0)\<close>; \<open>float(doc.get('rerank_score', 0) or 0)\<close> is the same number.\<close>

definition score_of :: "'v document \<Rightarrow> pyfloat" where
  "score_of doc = (case rerank_score doc of None \<Rightarrow> Finite 0 | Some x \<Rightarrow> x)"

text \<open>
  The cross-encoder is an external collaborator: \<open>reranker.predict(pairs)\<close> returns the
  scores, or raises (\<open>None\<close>). \<open>float(scores[i])\<close> is any float, NaN included.
\<close>

type_synonym cross_encoder = "(pystr \<times> pystr) list \<Rightarrow> pyfloat list option"

text \<open>
  What the service reads from outside the module:
  \<^item> \<open>use_reranker\<close>: \<open>settings.use_reranker\<close>;
  \<^item> \<open>make_cross_encoder\<close>: the result of \<open>CrossEncoder(model_name, max_length=512)\<close>,
    \<open>None\<close> when the constructor raises;
  \<^item> \<open>py_str\<close>: the built-in \<open>str\<close> on an id value;
  \<^item> \<open>py_str_doc\<close>: the built-in \<open>str\<close> on a whole document.
\<close>

record 'v runtime =
  use_reranker :: bool
  make_cross_encoder :: "cross_encoder option"
  py_str :: "'v \<Rightarrow> pystr"
  py_str_doc :: "'v document \<Rightarrow> pystr"

text \<open>The state of the service object: \<open>self._reranker_model\<close>.\<close>

record rag_service =
  reranker_model :: "cross_encoder option"

section \<open>The reranker adapter\<close>

definition load_reranker_model ::
  "'v runtime \<Rightarrow> rag_service \<Rightarrow> cross_encoder option \<times> rag_service" where
  "load_reranker_model R svc =
     (if reranker_model svc = None \<and> use_reranker R then
        (case make_cross_encoder R of
           None \<Rightarrow> (None, svc)
         | Some m \<Rightarrow> (Some m, svc\<lparr>reranker_model := Some m\<rparr>))
      else (reranker_model svc, svc))"

text \<open>The \<open>(query, document)\<close> pairs handed to the cross-encoder.\<close>

definition rerank_pairs ::
  "interpreter \<Rightarrow> 'v runtime \<Rightarrow> pystr \<Rightarrow> 'v document list \<Rightarrow> (pystr \<times> pystr) list" where
  "rerank_pairs U R query documents =
     map (\<lambda>doc. let t = take 2000 (text_of doc)
                in if strip U t \<noteq> [] then (query, t) else (query, py_str_doc R doc))
         documents"

text \<open>The loop \<open>for i, doc in enumerate(documents)\<close> that writes the scores.\<close>

definition assign_scores :: "pyfloat list \<Rightarrow> 'v document list \<Rightarrow> 'v document list" where
  "assign_scores scores documents =
     map (\<lambda>(i, doc). if i < length scores
                      then doc\<lparr>rerank_score := Some (scores ! i)\<rparr>
                      else doc\<lparr>rerank_score := Some (Finite 0)\<rparr>)
         (enumerate 0 documents)"

text \<open>
  \<open>sorted(xs, key=f, reverse=True)\<close>: the interpreter's sort compares the keys with \<open><\<close>
  only and is stable; a reversed sort is the stable ascending sort of the reversed list,
  reversed again. The model is the insertion sort of that shape: the elements are taken
  last first, and each is put into the descending result after the leading elements
  whose key is greater. Where no key is NaN the keys are totally ordered and every stable
  sort returns this list. With a NaN key the order the interpreter returns depends on
  how its sort finds runs; no order of such a list is descending.
\<close>

definition insert_desc :: "('a \<Rightarrow> pyfloat) \<Rightarrow> 'a \<Rightarrow> 'a list \<Rightarrow> 'a list" where
  "insert_desc f x ds =
     takeWhile (\<lambda>e. float_lt (f x) (f e)) ds @ x # dropWhile (\<lambda>e. float_lt (f x) (f e)) ds"

definition sorted_reverse :: "('a \<Rightarrow> pyfloat) \<Rightarrow> 'a list \<Rightarrow> 'a list" where
  "sorted_reverse f xs = foldr (insert_desc f) xs []"

text \<open>The body of the \<open>try\<close> block; \<open>None\<close> when an exception reaches the handler.\<close>

definition rerank_try ::
  "interpreter \<Rightarrow> 'v runtime \<Rightarrow> cross_encoder \<Rightarrow> pystr \<Rightarrow> 'v document list \<Rightarrow> int
     \<Rightarrow> 'v document list option" where
  "rerank_try U R reranker query documents top_k =
     (let pairs = rerank_pairs U R query documents in
      if pairs = [] then Some (py_prefix top_k documents)
      else (case reranker pairs of
              None \<Rightarrow> None
            | Some scores \<Rightarrow>
                (let scored = assign_scores scores documents;
                     reranked = sorted_reverse score_of scored
                 in Some (py_prefix top_k reranked))))"

definition rerank_documents ::
  "interpreter \<Rightarrow> 'v runtime \<Rightarrow> rag_service \<Rightarrow> pystr \<Rightarrow> 'v document list \<Rightarrow> int
     \<Rightarrow> 'v document list \<times> rag_service" where
  "rerank_documents U R svc query documents top_k =
     (if documents = [] then ([], svc)
      else (case load_reranker_model R svc of
              (None, svc') \<Rightarrow> (py_prefix top_k documents, svc')
            | (Some reranker, svc') \<Rightarrow>
                (case rerank_try U R reranker query documents top_k of
                   Some result \<Rightarrow> (result, svc')
                 | None \<Rightarrow> (py_prefix top_k documents, svc'))))"

section \<open>The search orchestrator\<close>

text \<open>\<open>str(doc.get('id', ''))\<close>\<close>

definition id_key :: "'v runtime \<Rightarrow> 'v document \<Rightarrow> pystr" where
  "id_key R doc = (case doc_id doc of None \<Rightarrow> [] | Some v \<Rightarrow> py_str R v)"

text \<open>
  One round of the deduplication loop. The dictionary \<open>all_candidates\<close> keeps its keys in
  insertion order, so it is a list of key and document pairs.
\<close>

definition dedup_step ::
  "'v runtime \<Rightarrow> (pystr \<times> 'v document) list \<Rightarrow> 'v document \<Rightarrow> (pystr \<times> 'v document) list" where
  "dedup_step R all_candidates doc =
     (let k = id_key R doc in
      if k \<noteq> [] \<and> k \<notin> set (map fst all_candidates)
      then all_candidates @ [(k, doc)] else all_candidates)"

definition candidates_list :: "'v runtime \<Rightarrow> 'v document list \<Rightarrow> 'v document list" where
  "candidates_list R vector_results = map snd (foldl (dedup_step R) [] vector_results)"

definition advanced_search ::
  "interpreter \<Rightarrow> 'v runtime \<Rightarrow> rag_service \<Rightarrow> pystr \<Rightarrow> pystr \<Rightarrow> 'v document list \<Rightarrow> int
     \<Rightarrow> 'v document list \<times> rag_service" where
  "advanced_search U R svc bot_id query vector_results top_k =
     (let cands = candidates_list R vector_results in
      if cands = [] then ([], svc)
      else if use_reranker R then
        (let rerank_k = min (top_k * 3) (int (length cands));
             (reranked, svc') = rerank_documents U R svc query cands rerank_k
         in (py_prefix top_k reranked, svc'))
      else (py_prefix top_k cands, svc))"

section \<open>The context assembler\<close>

text \<open>The class \<open>[A-Za-z\<dots>']\<close> of \<open>extract_keywords\<close>: Latin and Cyrillic letters, and the apostrophe.\<close>

definition keyword_char :: "nat \<Rightarrow> bool" where
  "keyword_char c =
     ((65 \<le> c \<and> c \<le> 90) \<or> (97 \<le> c \<and> c \<le> 122) \<or> (1040 \<le> c \<and> c \<le> 1071)
      \<or> (1072 \<le> c \<and> c \<le> 1103) \<or> c = 1025 \<or> c = 1105 \<or> c = 39)"

definition extract_keywords :: "interpreter \<Rightarrow> pystr \<Rightarrow> pystr list" where
  "extract_keywords U t =
     map (uni_lower U) (filter (\<lambda>w. 4 \<le> length w) (findall_runs keyword_char t))"

text \<open>The first line of the first document, when it is not empty and has at most 60 characters.\<close>

definition main_header_of :: "interpreter \<Rightarrow> 'v document list \<Rightarrow> pystr option" where
  "main_header_of U documents =
     (let first_text = text_of (hd documents);
          first_line = strip U (hd (split_on 10 first_text))
      in if first_line \<noteq> [] \<and> length first_line \<le> 60 then Some first_line else None)"

definition max_rerank_of :: "'v document list \<Rightarrow> pyfloat" where
  "max_rerank_of documents =
     foldl (\<lambda>m doc. if float_lt m (score_of doc) then score_of doc else m) (Finite 0) documents"

text \<open>One round of the filter loop; \<open>filtered_docs\<close> is the list built so far.\<close>

definition filter_step ::
  "interpreter \<Rightarrow> pystr list \<Rightarrow> pystr option \<Rightarrow> pyfloat \<Rightarrow> 'v document list \<Rightarrow> 'v document
     \<Rightarrow> 'v document list" where
  "filter_step U query_keywords main_header max_rerank filtered_docs doc =
     (let lower_text = uni_lower U (text_of doc);
          score = score_of doc;
          keep1 = (query_keywords \<noteq> [] \<and> list_ex (\<lambda>k. sublist k lower_text) query_keywords);
          keep2 = (if \<not> keep1 \<and> (case main_header of None \<Rightarrow> False
                                   | Some h \<Rightarrow> sublist (uni_lower U h) lower_text)
                   then True else keep1);
          keep3 = (if filtered_docs = [] then True else keep2);
          keep4 = (if keep3 \<and> float_lt (Finite 0) max_rerank \<and> filtered_docs \<noteq> []
                   then (if float_lt score (float_times_055 U max_rerank) then False else keep3)
                   else keep3)
      in if keep4 then filtered_docs @ [doc] else filtered_docs)"

definition filter_pass ::
  "interpreter \<Rightarrow> pystr \<Rightarrow> 'v document list \<Rightarrow> 'v document list" where
  "filter_pass U query documents =
     foldl (filter_step U (extract_keywords U query) (main_header_of U documents)
              (max_rerank_of documents)) [] documents"

text \<open>
  The loop of the recall safety net, with its \<open>break\<close>. \<open>doc in filtered_docs\<close> is
  equality of dictionaries. (Two equal dictionaries that are different objects and hold
  a NaN compare unequal in the interpreter; the model takes them as equal.)
\<close>

fun recall_loop :: "int \<Rightarrow> 'v document list \<Rightarrow> 'v document list \<Rightarrow> 'v document list" where
  "recall_loop min_docs filtered_docs [] = filtered_docs"
| "recall_loop min_docs filtered_docs (doc # rest) =
     (if doc \<in> set filtered_docs then recall_loop min_docs filtered_docs rest
      else (let filtered_docs' = filtered_docs @ [doc] in
            if int (length filtered_docs') \<ge> min_docs then filtered_docs'
            else recall_loop min_docs filtered_docs' rest))"

definition recall_net :: "int \<Rightarrow> 'v document list \<Rightarrow> 'v document list \<Rightarrow> 'v document list" where
  "recall_net min_docs documents filtered_docs =
     (if int (length filtered_docs) < min_docs
      then recall_loop min_docs filtered_docs documents else filtered_docs)"

text \<open>The fallback \<open>if not filtered_docs\<close>.\<close>

definition total_fallback :: "int \<Rightarrow> 'v document list \<Rightarrow> 'v document list \<Rightarrow> 'v document list" where
  "total_fallback min_docs documents filtered_docs =
     (if filtered_docs = []
      then py_prefix (min min_docs (int (length documents))) documents
      else filtered_docs)"

text \<open>Removal of documents whose stripped text was already seen.\<close>

definition dedup_text_step ::
  "interpreter \<Rightarrow> 'v document list \<times> pystr set \<Rightarrow> 'v document \<Rightarrow> 'v document list \<times> pystr set" where
  "dedup_text_step U acc doc =
     (let key = strip U (text_of doc) in
      if key \<in> snd acc then acc else (fst acc @ [doc], insert key (snd acc)))"

definition dedup_texts :: "interpreter \<Rightarrow> 'v document list \<Rightarrow> 'v document list" where
  "dedup_texts U filtered_docs = fst (foldl (dedup_text_step U) ([], {}) filtered_docs)"

text \<open>The packing loop, with its \<open>continue\<close> and \<open>break\<close>.\<close>

fun pack :: "interpreter \<Rightarrow> int \<Rightarrow> int \<Rightarrow> pystr list \<Rightarrow> int \<Rightarrow> 'v document list \<Rightarrow> pystr list" where
  "pack U max_chars max_docs context_parts total_chars [] = context_parts"
| "pack U max_chars max_docs context_parts total_chars (doc # rest) =
     (let t = strip U (text_of doc) in
      if t = [] then pack U max_chars max_docs context_parts total_chars rest
      else if length t < 120 \<and> 46 \<notin> set t \<and> 10 \<notin> set t \<and> length context_parts > 0
        then pack U max_chars max_docs context_parts total_chars rest
      else if int (length context_parts) \<ge> max_docs then context_parts
      else if total_chars + int (length t) > max_chars then
        (let remaining = max_chars - total_chars in
         if remaining > 500 then context_parts @ [take (nat remaining) t @ py ''...'']
         else context_parts)
      else pack U max_chars max_docs (context_parts @ [t]) (total_chars + int (length t)) rest)"

definition build_context ::
  "interpreter \<Rightarrow> pystr \<Rightarrow> 'v document list \<Rightarrow> int \<Rightarrow> int \<Rightarrow> int \<Rightarrow> pystr" where
  "build_context U query documents max_chars max_docs min_docs =
     (if documents = [] then []
      else (let filtered_docs = filter_pass U query documents;
                filtered_docs = recall_net min_docs documents filtered_docs;
                filtered_docs = total_fallback min_docs documents filtered_docs;
                filtered_docs = dedup_texts U filtered_docs
            in join [10, 10] (pack U max_chars max_docs [] 0 filtered_docs)))"

text \<open>The entries of the dictionary of candidates carry the key of their document.\<close>

definition keyed :: "'v runtime \<Rightarrow> (pystr \<times> 'v document) list \<Rightarrow> bool" where
  "keyed R acc = list_all (\<lambda>p. fst p = id_key R (snd p)) acc"

section \<open>Example inputs\<close>

text \<open>
  The tables \<open>ascii_db\<close> with the whitespace character U+0085 of the interpreter's table
  added: they agree with the interpreter on the strings over ASCII and U+0085.
\<close>

definition ascii_nel_db :: interpreter where
  "ascii_nel_db = ascii_db\<lparr>uni_space := \<lambda>c. uni_space ascii_db c \<or> c = 133\<rparr>"

text \<open>
  The document \<open>{'id': i, 'text': t}\<close> with a string id, and the document \<open>{'text': t}\<close>.
\<close>

definition id_doc :: "pystr \<Rightarrow> pystr \<Rightarrow> pystr document" where
  "id_doc i t = \<lparr>doc_id = Some i, doc_text = Some t, doc_score = None, rerank_score = None,
                  file_name = None, chunk_index = None\<rparr>"

definition anon_doc :: "pystr \<Rightarrow> pystr document" where
  "anon_doc t = \<lparr>doc_id = None, doc_text = Some t, doc_score = None, rerank_score = None,
                  file_name = None, chunk_index = None\<rparr>"

text \<open>
  A runtime for documents whose ids are strings (\<open>str\<close> of a string is the string). The
  printed form of a whole document only reaches the cross-encoder; a fixed string stands
  for it.
\<close>

definition str_runtime :: "bool \<Rightarrow> cross_encoder option \<Rightarrow> pystr runtime" where
  "str_runtime enabled enc =
     \<lparr>use_reranker = enabled, make_cross_encoder = enc, py_str = (\<lambda>s. s),
      py_str_doc = (\<lambda>d. py ''{}'')\<rparr>"

text \<open>A cross-encoder that returns the same scores for every batch, and one that raises.\<close>

definition fixed_encoder :: "pyfloat list \<Rightarrow> cross_encoder" where
  "fixed_encoder scores = (\<lambda>pairs. Some scores)"

definition failing_encoder :: cross_encoder where
  "failing_encoder = (\<lambda>pairs. None)"

definition fresh_service :: rag_service where
  "fresh_service = \<lparr>reranker_model = None\<rparr>"

section \<open>Notions of the specification\<close>

text \<open>A control character: the Unicode category Cc, the code points 0 to 31 and 127 to 159.\<close>

definition control_char :: "nat \<Rightarrow> bool" where
  "control_char c = (c < 32 \<or> (127 \<le> c \<and> c < 160))"

text \<open>
  What the tables of the interpreter say of the control characters: none of them is a
  word character (\<open>\w\<close>), and the whitespace characters (\<open>\s\<close>) among them are the code
  points 9 to 13, 28 to 31 and 133 (U+0085, next line).
\<close>

definition control_tables :: "interpreter \<Rightarrow> bool" where
  "control_tables U =
     list_all (\<lambda>c. control_char c \<longrightarrow>
                 \<not> uni_word U c
                 \<and> (uni_space U c \<longrightarrow> c \<in> set [9, 10, 11, 12, 13, 28, 29, 30, 31, 133]))
       [0..<160]"

text \<open>
  The first-seen documents of a list, in the words of the specification: the documents
  whose stringified id is not empty and is the stringified id of no earlier document of
  the list, in the order of the list.
\<close>

definition first_seen :: "'v runtime \<Rightarrow> 'v document list \<Rightarrow> 'v document list" where
  "first_seen R ds =
     map snd (filter (\<lambda>(i, d). id_key R d \<noteq> [] \<and> id_key R d \<notin> set (map (id_key R) (take i ds)))
                (enumerate 0 ds))"

text \<open>
  Whether the packing loop ends in its truncation branch: the control flow of \<open>pack\<close>,
  returning \<open>True\<close> where \<open>pack\<close> appends a truncated text and stops.
\<close>

fun pack_truncates ::
  "interpreter \<Rightarrow> int \<Rightarrow> int \<Rightarrow> pystr list \<Rightarrow> int \<Rightarrow> 'v document list \<Rightarrow> bool" where
  "pack_truncates U max_chars max_docs context_parts total_chars [] = False"
| "pack_truncates U max_chars max_docs context_parts total_chars (doc # rest) =
     (let t = strip U (text_of doc) in
      if t = [] then pack_truncates U max_chars max_docs context_parts total_chars rest
      else if length t < 120 \<and> 46 \<notin> set t \<and> 10 \<notin> set t \<and> length context_parts > 0
        then pack_truncates U max_chars max_docs context_parts total_chars rest
      else if int (length context_parts) \<ge> max_docs then False
      else if total_chars + int (length t) > max_chars then max_chars - total_chars > 500
      else pack_truncates U max_chars max_docs (context_parts @ [t])
             (total_chars + int (length t)) rest)"

text \<open>
  Two sentence splitters: one that returns the line as its only sentence (what the
  tokenizer does on a line without sentence punctuation), and one that raises (the
  tokenizer data is missing).
\<close>

definition whole_line :: "pystr \<Rightarrow> pystr list option" where
  "whole_line line = Some [line]"

definition no_punkt :: "pystr \<Rightarrow> pystr list option" where
  "no_punkt line = None"


section \<open>Properties of the string operations\<close>


lemma sub_runs_long:
  "n \<le> Suc (length (takeWhile (\<lambda>y. y = c) xs)) \<Longrightarrow>
     sub_runs c n repl (c # xs) = repl @ sub_runs c n repl (dropWhile (\<lambda>y. y = c) xs)"
  by simp

lemma sub_runs_copy:
  "\<not> (x = c \<and> n \<le> Suc (length (takeWhile (\<lambda>y. y = c) xs))) \<Longrightarrow>
     sub_runs c n repl (x # xs) = x # sub_runs c n repl xs"
  by auto

declare sub_runs.simps(2) [simp del]

lemma takeWhile_replicate_append:
  "r = [] \<or> hd r \<noteq> c \<Longrightarrow> takeWhile (\<lambda>y. y = c) (replicate k c @ r) = replicate k c"
  by (induction k) (cases r; auto)+

lemma set_sub_runs: "set repl \<subseteq> {c} \<Longrightarrow> set (sub_runs c n repl s) \<subseteq> set s"
proof (induction c n repl s rule: sub_runs.induct)
  case (1 c n repl)
  then show ?case by simp
next
  case (2 c n repl x xs)
  show ?case
  proof (cases "x = c \<and> n \<le> Suc (length (takeWhile (\<lambda>y. y = c) xs))")
    case True
    then have "set (sub_runs c n repl (dropWhile (\<lambda>y. y = c) xs)) \<subseteq> set (dropWhile (\<lambda>y. y = c) xs)"
      using 2 by simp
    moreover have "set (dropWhile (\<lambda>y. y = c) xs) \<subseteq> set xs"
      by (auto dest: set_dropWhileD)
    ultimately show ?thesis using True 2(3) by (auto simp: sub_runs_long)
  next
    case False
    then have "set (sub_runs c n repl xs) \<subseteq> set xs" using 2 by simp
    then show ?thesis by (auto simp: sub_runs_copy[OF False])
  qed
qed

lemma prefix_replicate_takeWhile:
  "prefix (replicate n c) s \<longleftrightarrow> n \<le> length (takeWhile (\<lambda>y. y = c) s)"
proof (induction s arbitrary: n)
  case Nil
  then show ?case by simp
next
  case (Cons x xs)
  then show ?case by (cases n) auto
qed

lemma sub_runs_hd:
  "s = [] \<or> hd s \<noteq> c \<Longrightarrow> sub_runs c n repl s = [] \<or> hd (sub_runs c n repl s) \<noteq> c"
  by (cases s) (auto simp: sub_runs_copy)

lemma sublist_replicate_append:
  assumes "r = [] \<or> hd r \<noteq> c"
  shows "sublist (replicate n c) (replicate k c @ r) \<longleftrightarrow> n \<le> k \<or> sublist (replicate n c) r"
proof (induction k)
  case 0
  then show ?case by (cases n) auto
next
  case (Suc k)
  have tw: "length (takeWhile (\<lambda>y. y = c) (replicate (Suc k) c @ r)) = Suc k"
    using takeWhile_replicate_append[OF assms, of "Suc k"] by simp
  have "sublist (replicate n c) (replicate (Suc k) c @ r) \<longleftrightarrow>
        prefix (replicate n c) (replicate (Suc k) c @ r) \<or> sublist (replicate n c) (replicate k c @ r)"
    by (simp add: sublist_Cons_right)
  also have "\<dots> \<longleftrightarrow> n \<le> Suc k \<or> (n \<le> k \<or> sublist (replicate n c) r)"
    using Suc tw by (simp only: prefix_replicate_takeWhile)
  finally show ?case by auto
qed

lemma takeWhile_sub_runs:
  "length (takeWhile (\<lambda>y. y = c) s) < n \<Longrightarrow>
     takeWhile (\<lambda>y. y = c) (sub_runs c n repl s) = takeWhile (\<lambda>y. y = c) s"
  by (induction s) (auto simp: sub_runs_copy)

lemma no_run_sub_runs:
  "k < m \<Longrightarrow> n \<le> m \<Longrightarrow> \<not> sublist (replicate m c) (sub_runs c n (replicate k c) s)"
proof (induction c n "replicate k c" s rule: sub_runs.induct)
  case (1 c n)
  then show ?case by (cases m) auto
next
  case (2 c n x xs)
  show ?case
  proof (cases "x = c \<and> n \<le> Suc (length (takeWhile (\<lambda>y. y = c) xs))")
    case True
    let ?r = "sub_runs c n (replicate k c) (dropWhile (\<lambda>y. y = c) xs)"
    have ih: "\<not> sublist (replicate m c) ?r" using 2 True by simp
    have "dropWhile (\<lambda>y. y = c) xs = [] \<or> hd (dropWhile (\<lambda>y. y = c) xs) \<noteq> c"
      using hd_dropWhile[of "\<lambda>y. y = c" xs] by auto
    then have "?r = [] \<or> hd ?r \<noteq> c" by (rule sub_runs_hd)
    then have "\<not> sublist (replicate m c) (replicate k c @ ?r)"
      using ih 2(3) by (simp add: sublist_replicate_append)
    then show ?thesis using True by (simp add: sub_runs_long)
  next
    case False
    have ih: "\<not> sublist (replicate m c) (sub_runs c n (replicate k c) xs)" using 2 False by simp
    have "\<not> prefix (replicate m c) (x # sub_runs c n (replicate k c) xs)"
    proof (cases "x = c")
      case True
      then have short: "Suc (length (takeWhile (\<lambda>y. y = c) xs)) < n" using False by auto
      then have "takeWhile (\<lambda>y. y = c) (sub_runs c n (replicate k c) xs) = takeWhile (\<lambda>y. y = c) xs"
        by (intro takeWhile_sub_runs) simp
      then show ?thesis using short True 2(4) by (simp add: prefix_replicate_takeWhile)
    next
      case False
      then show ?thesis using 2(3) by (simp add: prefix_replicate_takeWhile)
    qed
    then show ?thesis using ih by (simp add: sub_runs_copy[OF False] sublist_Cons_right)
  qed
qed

lemma sub_runs_id:
  "0 < n \<Longrightarrow> \<not> sublist (replicate n c) s \<Longrightarrow> sub_runs c n repl s = s"
proof (induction s)
  case Nil
  then show ?case by simp
next
  case (Cons x xs)
  have np: "\<not> prefix (replicate n c) (x # xs)" and ns: "\<not> sublist (replicate n c) xs"
    using Cons.prems(2) by (auto simp: sublist_Cons_right)
  have "\<not> (x = c \<and> n \<le> Suc (length (takeWhile (\<lambda>y. y = c) xs)))"
    using np by (auto simp: prefix_replicate_takeWhile)
  then show ?case using Cons.IH[OF Cons.prems(1) ns] by (simp add: sub_runs_copy)
qed

lemma sub_runs_single_id:
  "\<not> sublist [c, c] s \<Longrightarrow> sub_runs c 1 [c] s = s"
proof (induction s)
  case Nil
  then show ?case by simp
next
  case (Cons x xs)
  have np: "\<not> prefix [c, c] (x # xs)" and ns: "\<not> sublist [c, c] xs"
    using Cons.prems by (auto simp: sublist_Cons_right)
  show ?case
  proof (cases "x = c")
    case True
    then have "xs = [] \<or> hd xs \<noteq> c" using np by (cases xs) auto
    then have "dropWhile (\<lambda>y. y = c) xs = xs" by (cases xs) auto
    then show ?thesis using True Cons.IH[OF ns] by (simp add: sub_runs_long)
  next
    case False
    then show ?thesis using Cons.IH[OF ns] by (simp add: sub_runs_copy)
  qed
qed

lemma sub_runs_keeps_hd:
  "s \<noteq> [] \<Longrightarrow> 0 < k \<Longrightarrow> sub_runs c n (replicate k c) s \<noteq> [] \<and> hd (sub_runs c n (replicate k c) s) = hd s"
proof -
  assume s: "s \<noteq> []" and k: "0 < k"
  then obtain x xs where sx: "s = x # xs" by (cases s) auto
  obtain j where kj: "k = Suc j" using k by (cases k) auto
  show ?thesis
  proof (cases "x = c \<and> n \<le> Suc (length (takeWhile (\<lambda>y. y = c) xs))")
    case True
    then show ?thesis unfolding sx kj by (simp add: sub_runs_long)
  next
    case False
    then show ?thesis unfolding sx by (simp add: sub_runs_copy)
  qed
qed

lemma sublist_pair_replicate_append:
  "a \<noteq> c \<Longrightarrow> sublist [a, a] (replicate k c @ r) \<longleftrightarrow> sublist [a, a] r"
  by (induction k) (auto simp: sublist_Cons_right)

lemma pair_sub_runs:
  "a \<noteq> c \<Longrightarrow> 0 < k \<Longrightarrow> \<not> sublist [a, a] s \<Longrightarrow> \<not> sublist [a, a] (sub_runs c n (replicate k c) s)"
proof (induction c n "replicate k c" s rule: sub_runs.induct)
  case (1 c n)
  then show ?case by simp
next
  case (2 c n x xs)
  have np: "\<not> prefix [a, a] (x # xs)" and ns: "\<not> sublist [a, a] xs"
    using 2(5) by (auto simp: sublist_Cons_right)
  show ?case
  proof (cases "x = c \<and> n \<le> Suc (length (takeWhile (\<lambda>y. y = c) xs))")
    case True
    have "sublist (dropWhile (\<lambda>y. y = c) xs) xs" by simp
    then have "\<not> sublist [a, a] (dropWhile (\<lambda>y. y = c) xs)"
      using ns sublist_order.order_trans by blast
    then have "\<not> sublist [a, a] (sub_runs c n (replicate k c) (dropWhile (\<lambda>y. y = c) xs))"
      using 2 True by simp
    then show ?thesis using True 2(3) by (simp add: sub_runs_long sublist_pair_replicate_append)
  next
    case False
    have ih: "\<not> sublist [a, a] (sub_runs c n (replicate k c) xs)" using 2 False ns by simp
    have "\<not> prefix [a, a] (x # sub_runs c n (replicate k c) xs)"
    proof (cases xs)
      case Nil
      then show ?thesis by simp
    next
      case (Cons y ys)
      then have "hd (sub_runs c n (replicate k c) xs) = y" "sub_runs c n (replicate k c) xs \<noteq> []"
        using sub_runs_keeps_hd[of xs k c n] 2(4) by auto
      then show ?thesis using np Cons by (cases "sub_runs c n (replicate k c) xs") auto
    qed
    then show ?thesis using ih by (simp add: sub_runs_copy[OF False] sublist_Cons_right)
  qed
qed

lemma sublist_strip: "sublist (strip U s) s"
proof -
  have "sublist (dropWhile (uni_space U) (rev (dropWhile (uni_space U) s))) (rev (dropWhile (uni_space U) s))"
    by simp
  then have "sublist (strip U s) (dropWhile (uni_space U) s)"
    unfolding strip_def by (simp add: sublist_rev_left)
  moreover have "sublist (dropWhile (uni_space U) s) s" by simp
  ultimately show ?thesis using sublist_order.order_trans by blast
qed

lemma strip_idem: "strip U (strip U s) = strip U s"
proof -
  define P where "P = uni_space U"
  define a where "a = dropWhile P s"
  define b where "b = dropWhile P (rev a)"
  have strip_s: "strip U s = rev b" by (simp add: strip_def P_def a_def b_def)
  have b_id: "dropWhile P b = b" by (simp add: b_def)
  have "dropWhile P (rev b) = rev b"
  proof (cases "b = []")
    case True
    then show ?thesis by simp
  next
    case False
    then have "rev a \<noteq> []" by (auto simp: b_def)
    then have "a \<noteq> []" by simp
    then have "\<not> P (hd a)" unfolding a_def by (rule hd_dropWhile)
    moreover have "rev a = takeWhile P (rev a) @ b" by (simp add: b_def)
    then have "a = rev b @ rev (takeWhile P (rev a))" by (metis rev_append rev_rev_ident)
    then have "hd a = hd (rev b)" using False by (metis hd_append2 rev_is_Nil_conv)
    ultimately show ?thesis by (simp add: dropWhile_eq_self_iff)
  qed
  then have "rev (dropWhile P (rev (dropWhile P (rev b)))) = rev b"
    using b_id by simp
  then show ?thesis unfolding strip_s unfolding strip_def P_def .
qed

lemma set_strip: "set (strip U s) \<subseteq> set s"
  using sublist_strip[of U s] by (meson set_mono_sublist)


section \<open>Properties of the sanitizer\<close>

lemma clean_no_pdf_control: "c \<in> set (clean_pdf_artifacts U x) \<Longrightarrow> \<not> pdf_control c"
proof -
  assume c: "c \<in> set (clean_pdf_artifacts U x)"
  let ?t2 = "filter (pdf_allowed U) (filter (\<lambda>c. \<not> pdf_control c) x)"
  have "set (sub_runs 10 3 [10, 10] (sub_runs 32 1 [32] ?t2)) \<subseteq> set (sub_runs 32 1 [32] ?t2)"
    by (rule set_sub_runs) simp
  moreover have "set (sub_runs 32 1 [32] ?t2) \<subseteq> set ?t2"
    by (rule set_sub_runs) simp
  ultimately have "c \<in> set ?t2"
    using c set_strip[of U "sub_runs 10 3 [10, 10] (sub_runs 32 1 [32] ?t2)"]
    by (auto simp: clean_pdf_artifacts_def Let_def)
  then show ?thesis by simp
qed

lemma clean_allowed: "c \<in> set (clean_pdf_artifacts U x) \<Longrightarrow> pdf_allowed U c"
proof -
  assume c: "c \<in> set (clean_pdf_artifacts U x)"
  let ?t2 = "filter (pdf_allowed U) (filter (\<lambda>c. \<not> pdf_control c) x)"
  have "set (sub_runs 10 3 [10, 10] (sub_runs 32 1 [32] ?t2)) \<subseteq> set (sub_runs 32 1 [32] ?t2)"
    by (rule set_sub_runs) simp
  moreover have "set (sub_runs 32 1 [32] ?t2) \<subseteq> set ?t2"
    by (rule set_sub_runs) simp
  ultimately have "c \<in> set ?t2"
    using c set_strip[of U "sub_runs 10 3 [10, 10] (sub_runs 32 1 [32] ?t2)"]
    by (auto simp: clean_pdf_artifacts_def Let_def)
  then show ?thesis by simp
qed

lemma clean_no_newline_run: "\<not> sublist [10, 10, 10] (clean_pdf_artifacts U x)"
proof -
  let ?t3 = "sub_runs 32 1 [32] (filter (pdf_allowed U) (filter (\<lambda>c. \<not> pdf_control c) x))"
  have "\<not> sublist (replicate 3 10) (sub_runs 10 3 (replicate 2 10) ?t3)"
    by (rule no_run_sub_runs) simp_all
  then have "\<not> sublist [10, 10, 10] (sub_runs 10 3 [10, 10] ?t3)"
    by (simp add: numeral_3_eq_3 numeral_2_eq_2)
  then show ?thesis
    using sublist_strip[of U "sub_runs 10 3 [10, 10] ?t3"] sublist_order.order_trans
    unfolding clean_pdf_artifacts_def Let_def by blast
qed

lemma clean_no_space_run: "\<not> sublist [32, 32] (clean_pdf_artifacts U x)"
proof -
  let ?t2 = "filter (pdf_allowed U) (filter (\<lambda>c. \<not> pdf_control c) x)"
  have "\<not> sublist (replicate 2 32) (sub_runs 32 1 (replicate 1 32) ?t2)"
    by (rule no_run_sub_runs) simp_all
  then have a: "\<not> sublist [32, 32] (sub_runs 32 1 [32] ?t2)"
    by (simp add: numeral_2_eq_2)
  have "\<not> sublist [32, 32] (sub_runs 10 3 (replicate 2 10) (sub_runs 32 1 [32] ?t2))"
    using a by (intro pair_sub_runs) simp_all
  then have "\<not> sublist [32, 32] (sub_runs 10 3 [10, 10] (sub_runs 32 1 [32] ?t2))"
    by (simp add: numeral_2_eq_2)
  then show ?thesis
    using sublist_strip[of U "sub_runs 10 3 [10, 10] (sub_runs 32 1 [32] ?t2)"]
      sublist_order.order_trans
    unfolding clean_pdf_artifacts_def Let_def by blast
qed


lemma clean_fixed_point: "clean_pdf_artifacts U (clean_pdf_artifacts U x) = clean_pdf_artifacts U x"
proof -
  define y where "y = clean_pdf_artifacts U x"
  have f1: "filter (\<lambda>c. \<not> pdf_control c) y = y"
    unfolding y_def by (rule filter_True) (simp add: clean_no_pdf_control)
  have f2: "filter (pdf_allowed U) y = y"
    unfolding y_def by (rule filter_True) (simp add: clean_allowed)
  have s3: "sub_runs 32 1 [32] y = y"
    unfolding y_def by (rule sub_runs_single_id) (rule clean_no_space_run)
  have s4: "sub_runs 10 3 [10, 10] y = y"
    unfolding y_def by (rule sub_runs_id) (simp_all add: numeral_3_eq_3 clean_no_newline_run)
  have s5: "strip U y = y"
    unfolding y_def clean_pdf_artifacts_def Let_def by (rule strip_idem)
  have "clean_pdf_artifacts U y = y"
    by (simp only: clean_pdf_artifacts_def[of U y] Let_def f1 f2 s3 s4 s5)
  then show ?thesis by (simp add: y_def)
qed

lemma control_tables_kept:
  assumes "control_tables U" and "control_char c" and "pdf_allowed U c" and "\<not> pdf_control c"
  shows "c \<in> {9, 10, 13, 133}"
proof -
  from assms(2) have "c \<in> set [0..<160]" by (auto simp: control_char_def)
  with assms(1,2) have w: "\<not> uni_word U c"
    and sp: "uni_space U c \<longrightarrow> c \<in> set [9, 10, 11, 12, 13, 28, 29, 30, 31, 133]"
    unfolding control_tables_def list_all_iff by blast+
  have "c \<notin> set (py ''-.,!?:;()&'')" "c \<noteq> 39" "c \<noteq> 34"
    using assms(2) by (auto simp: control_char_def py_def)
  with assms(3) w have "uni_space U c \<or> c = 10" by (simp add: pdf_allowed_def)
  with sp have "c \<in> set [9, 10, 11, 12, 13, 28, 29, 30, 31, 133]" by auto
  with assms(4) show ?thesis by (auto simp: pdf_control_def)
qed

text \<open>
  Claim C8, as the specification states it: the output of the sanitizer holds no control
  character other than the newline. A tab or a carriage return between two letters
  survives every step of \<open>clean_pdf_artifacts\<close>: the first class leaves the code points
  9, 10 and 13 out, and both are whitespace for the second class. So does U+0085, which
  the first class does not reach and which is whitespace too.
\<close>

theorem sanitizer_keeps_tab:
  "clean_pdf_artifacts ascii_db [97, 9, 98] = [97, 9, 98] \<and> control_char 9 \<and> (9::nat) \<noteq> 10
   \<and> clean_pdf_artifacts ascii_db [97, 13, 98] = [97, 13, 98] \<and> control_char 13
   \<and> (13::nat) \<noteq> 10
   \<and> clean_pdf_artifacts ascii_nel_db [97, 133, 98] = [97, 133, 98] \<and> control_char 133
   \<and> (133::nat) \<noteq> 10"
proof -
  have "clean_pdf_artifacts ascii_db [97, 9, 98] = [97, 9, 98]" by code_simp
  moreover have "clean_pdf_artifacts ascii_db [97, 13, 98] = [97, 13, 98]" by code_simp
  moreover have "clean_pdf_artifacts ascii_nel_db [97, 133, 98] = [97, 133, 98]" by code_simp
  ultimately show ?thesis by (simp add: control_char_def)
qed

text \<open>
  Claim C8, amended: for every input and every character table, each character of the
  output of the sanitizer is outside the class \<open>[\x00-\x08\x0B\x0C\x0E-\x1F]\<close> of the first
  substitution and inside the class \<open>[\w\s\-\.,!?:;()&\'"\n]\<close> that the second one keeps;
  so, with the tables of the interpreter, the output holds no control character other
  than tab, newline, carriage return and U+0085 (DEL and the other control characters
  from U+007F to U+009F are removed by the second substitution); and the output holds no
  three consecutive newlines and no two consecutive spaces.
\<close>

theorem sanitizer_output_shape:
  "(\<forall>c \<in> set (clean_pdf_artifacts U x). \<not> pdf_control c \<and> pdf_allowed U c)
   \<and> (control_tables U \<longrightarrow>
         (\<forall>c \<in> set (clean_pdf_artifacts U x). control_char c \<longrightarrow> c \<in> {9, 10, 13, 133}))
   \<and> \<not> sublist [10, 10, 10] (clean_pdf_artifacts U x)
   \<and> \<not> sublist [32, 32] (clean_pdf_artifacts U x)"
proof (intro conjI ballI impI)
  fix c assume "c \<in> set (clean_pdf_artifacts U x)"
  then show "\<not> pdf_control c" by (rule clean_no_pdf_control)
next
  fix c assume "c \<in> set (clean_pdf_artifacts U x)"
  then show "pdf_allowed U c" by (rule clean_allowed)
next
  fix c assume t: "control_tables U" and c: "c \<in> set (clean_pdf_artifacts U x)"
    and cc: "control_char c"
  show "c \<in> {9, 10, 13, 133}"
    using t cc clean_allowed[OF c] clean_no_pdf_control[OF c] by (rule control_tables_kept)
next
  show "\<not> sublist [10, 10, 10] (clean_pdf_artifacts U x)" by (rule clean_no_newline_run)
  show "\<not> sublist [32, 32] (clean_pdf_artifacts U x)" by (rule clean_no_space_run)
qed

theorem sanitizer_output_shape_witness:
  "clean_pdf_artifacts ascii_db [97, 127, 9, 1, 155, 98, 32, 32, 13, 10, 10, 10, 10, 99]
     = [97, 9, 98, 32, 13, 10, 10, 99]
   \<and> control_tables ascii_db
   \<and> filter control_char [97, 9, 98, 32, 13, 10, 10, 99] = [9, 13, 10, 10]
   \<and> \<not> sublist [10, 10, 10] [97, 9, 98, 32, 13, 10, 10, 99::nat]
   \<and> \<not> sublist [32, 32] [97, 9, 98, 32, 13, 10, 10, 99::nat]"
proof -
  have e: "clean_pdf_artifacts ascii_db [97, 127, 9, 1, 155, 98, 32, 32, 13, 10, 10, 10, 10, 99]
             = [97, 9, 98, 32, 13, 10, 10, 99]"
    by code_simp
  have t: "control_tables ascii_db" by code_simp
  have f: "filter control_char [97, 9, 98, 32, 13, 10, 10, 99] = [9, 13, 10, 10]"
    by code_simp
  show ?thesis
    using sanitizer_output_shape[of ascii_db "[97, 127, 9, 1, 155, 98, 32, 32, 13, 10, 10, 10, 10, 99]"]
      t f
    unfolding e by simp
qed

text \<open>
  Claim C9: the sanitizer is idempotent, for every string and every character table.
\<close>

theorem sanitizer_idempotent:
  "clean_pdf_artifacts U (clean_pdf_artifacts U x) = clean_pdf_artifacts U x"
  by (rule clean_fixed_point)

theorem sanitizer_idempotent_witness:
  "clean_pdf_artifacts ascii_db
     (clean_pdf_artifacts ascii_db [32, 97, 32, 32, 1, 98, 10, 10, 10, 10, 99, 9])
   = [97, 32, 98, 10, 10, 99]"
proof -
  have e: "clean_pdf_artifacts ascii_db [32, 97, 32, 32, 1, 98, 10, 10, 10, 10, 99, 9]
             = [97, 32, 98, 10, 10, 99]"
    by code_simp
  show ?thesis
    using sanitizer_idempotent[of ascii_db "[32, 97, 32, 32, 1, 98, 10, 10, 10, 10, 99, 9]"]
    unfolding e by simp
qed

section \<open>Properties of the deduplication, the reranker adapter and the search\<close>

lemma find_snoc:
  "find P (xs @ [x]) = (case find P xs of Some y \<Rightarrow> Some y | None \<Rightarrow> if P x then Some x else None)"
  by (induction xs) auto

lemma keyed_step: "keyed R acc \<Longrightarrow> keyed R (dedup_step R acc d)"
  by (simp add: keyed_def dedup_step_def Let_def)

lemma keyed_foldl: "keyed R (foldl (dedup_step R) [] ds)"
  by (induction ds rule: rev_induct) (simp_all add: keyed_step, simp add: keyed_def)

lemma keyed_keys: "keyed R acc \<Longrightarrow> set (map fst acc) = set (map (id_key R) (map snd acc))"
  by (induction acc) (auto simp: keyed_def)

lemma candidates_list_Nil: "candidates_list R [] = []"
  by (simp add: candidates_list_def)

lemma candidates_list_snoc:
  "candidates_list R (ds @ [d]) =
     (if id_key R d \<noteq> [] \<and> id_key R d \<notin> set (map (id_key R) (candidates_list R ds))
      then candidates_list R ds @ [d] else candidates_list R ds)"
  using keyed_keys[OF keyed_foldl, of R ds]
  by (simp add: candidates_list_def dedup_step_def Let_def)

lemma candidates_distinct: "distinct (map (id_key R) (candidates_list R ds))"
  by (induction ds rule: rev_induct) (auto simp: candidates_list_Nil candidates_list_snoc)

lemma candidates_subseq: "subseq (candidates_list R ds) ds"
proof (induction ds rule: rev_induct)
  case Nil
  then show ?case by (simp add: candidates_list_Nil)
next
  case (snoc d ds)
  have "subseq (candidates_list R ds @ [d]) (ds @ [d])"
    using snoc by (simp add: list_emb_append_mono)
  moreover have "subseq (candidates_list R ds) (ds @ [d])"
    using snoc by (metis append_Nil2 list_emb_append_mono list_emb_Nil)
  ultimately show ?case by (simp add: candidates_list_snoc)
qed

lemma candidates_keys:
  "set (map (id_key R) (candidates_list R ds)) = id_key R ` set ds - {[]}"
proof (induction ds rule: rev_induct)
  case Nil
  then show ?case by (simp add: candidates_list_Nil)
next
  case (snoc d ds)
  show ?case
  proof (cases "id_key R d \<noteq> [] \<and> id_key R d \<notin> set (map (id_key R) (candidates_list R ds))")
    case True
    then have "candidates_list R (ds @ [d]) = candidates_list R ds @ [d]"
      by (simp add: candidates_list_snoc)
    then show ?thesis using snoc True by auto
  next
    case False
    then have "candidates_list R (ds @ [d]) = candidates_list R ds"
      by (simp add: candidates_list_snoc)
    then show ?thesis using snoc False by auto
  qed
qed

lemma candidates_first:
  "d \<in> set (candidates_list R ds) \<Longrightarrow> find (\<lambda>e. id_key R e = id_key R d) ds = Some d"
proof (induction ds rule: rev_induct)
  case Nil
  then show ?case by (simp add: candidates_list_Nil)
next
  case (snoc x ds)
  show ?case
  proof (cases "d \<in> set (candidates_list R ds)")
    case True
    then show ?thesis using snoc.IH by (simp add: find_snoc)
  next
    case False
    then have new: "d = x" "id_key R x \<noteq> []" "id_key R x \<notin> set (map (id_key R) (candidates_list R ds))"
      using snoc.prems by (auto simp: candidates_list_snoc split: if_splits)
    then have "id_key R x \<notin> id_key R ` set ds"
      using candidates_keys[of R ds] by auto
    then have "\<not> (\<exists>e. e \<in> set ds \<and> id_key R e = id_key R x)"
      by (metis imageI)
    then have "find (\<lambda>e. id_key R e = id_key R x) ds = None"
      using find_None_iff[of "\<lambda>e. id_key R e = id_key R x" ds] by blast
    then show ?thesis using new by (simp add: find_snoc)
  qed
qed

lemma candidates_length: "length (candidates_list R ds) \<le> length ds"
  using candidates_subseq[of R ds] by (rule list_emb_length)


lemma candidates_nonempty_keys: "d \<in> set (candidates_list R ds) \<Longrightarrow> id_key R d \<noteq> []"
  using candidates_keys[of R ds] by auto

lemma candidates_covers:
  "d \<in> set ds \<Longrightarrow> id_key R d \<noteq> [] \<Longrightarrow> id_key R d \<in> set (map (id_key R) (candidates_list R ds))"
  using candidates_keys[of R ds] by auto

lemma first_seen_snoc:
  "first_seen R (ds @ [d]) =
     (if id_key R d \<noteq> [] \<and> id_key R d \<notin> set (map (id_key R) ds)
      then first_seen R ds @ [d] else first_seen R ds)"
proof -
  have "filter (\<lambda>(i, e). id_key R e \<noteq> [] \<and> id_key R e \<notin> set (map (id_key R) (take i (ds @ [d]))))
          (enumerate 0 ds)
        = filter (\<lambda>(i, e). id_key R e \<noteq> [] \<and> id_key R e \<notin> set (map (id_key R) (take i ds)))
          (enumerate 0 ds)"
    by (rule filter_cong) (auto simp: in_set_enumerate_eq)
  then show ?thesis
    by (simp add: first_seen_def enumerate_append_eq)
qed

lemma candidates_first_seen: "candidates_list R ds = first_seen R ds"
proof (induction ds rule: rev_induct)
  case Nil
  then show ?case by (simp add: candidates_list_Nil first_seen_def)
next
  case (snoc d ds)
  have "id_key R d \<noteq> [] \<Longrightarrow>
          (id_key R d \<notin> set (map (id_key R) (candidates_list R ds)))
            = (id_key R d \<notin> set (map (id_key R) ds))"
    using candidates_keys[of R ds] by auto
  then show ?case
    using snoc by (auto simp: candidates_list_snoc first_seen_snoc)
qed

lemma py_prefix_nonneg: "0 \<le> k \<Longrightarrow> py_prefix k xs = take (nat k) xs"
  by (simp add: py_prefix_def)

lemma float_lt_irrefl: "\<not> float_lt a a"
  by (cases a) simp_all

lemma float_lt_asym: "float_lt a b \<Longrightarrow> \<not> float_lt b a"
  by (cases a; cases b) simp_all

lemma float_lt_below:
  "float_lt x e \<Longrightarrow> \<not> float_lt x d \<Longrightarrow> \<not> is_nan x \<Longrightarrow> \<not> is_nan d \<Longrightarrow> float_lt d e"
  by (cases x; cases e; cases d) simp_all

lemma mset_insert_desc: "mset (insert_desc f x ds) = add_mset x (mset ds)"
proof -
  have "mset (takeWhile (\<lambda>e. float_lt (f x) (f e)) ds) + mset (dropWhile (\<lambda>e. float_lt (f x) (f e)) ds)
          = mset ds"
    by (simp only: mset_append[symmetric] takeWhile_dropWhile_id)
  then show ?thesis by (simp add: insert_desc_def)
qed

lemma mset_sorted_reverse: "mset (sorted_reverse f xs) = mset xs"
  by (induction xs) (simp_all add: sorted_reverse_def mset_insert_desc)

lemma set_sorted_reverse: "set (sorted_reverse f xs) = set xs"
  using mset_sorted_reverse[of f xs] by (metis set_mset_mset)

lemma dropWhile_below:
  assumes "sorted_wrt (\<lambda>a b. float_ge (f a) (f b)) ds" and "\<not> is_nan (f x)"
  shows "\<forall>e \<in> set (dropWhile (\<lambda>e. float_lt (f x) (f e)) ds). \<not> float_lt (f x) (f e)"
  using assms(1)
proof (induction ds)
  case Nil
  then show ?case by simp
next
  case (Cons d ds)
  show ?case
  proof (cases "float_lt (f x) (f d)")
    case True
    from Cons.prems have "sorted_wrt (\<lambda>a b. float_ge (f a) (f b)) ds" by simp
    then have "\<forall>e \<in> set (dropWhile (\<lambda>e. float_lt (f x) (f e)) ds). \<not> float_lt (f x) (f e)"
      by (rule Cons.IH)
    moreover have "dropWhile (\<lambda>e. float_lt (f x) (f e)) (d # ds)
                     = dropWhile (\<lambda>e. float_lt (f x) (f e)) ds"
      using True by simp
    ultimately show ?thesis by (simp only:)
  next
    case False
    have "\<not> float_lt (f x) (f e)" if "e \<in> set ds" for e
    proof
      assume lt: "float_lt (f x) (f e)"
      from Cons.prems that have ge: "float_ge (f d) (f e)" by simp
      then have "\<not> is_nan (f d)" by (simp add: float_ge_def)
      from float_lt_below[OF lt False assms(2) this] ge show False
        by (simp add: float_ge_def)
    qed
    moreover have "dropWhile (\<lambda>e. float_lt (f x) (f e)) (d # ds) = d # ds"
      using False by simp
    ultimately show ?thesis using False by (simp only: set_simps ball_simps) blast
  qed
qed

lemma sorted_insert_desc:
  assumes "sorted_wrt (\<lambda>a b. float_ge (f a) (f b)) ds" and "\<not> is_nan (f x)"
    and "\<forall>e \<in> set ds. \<not> is_nan (f e)"
  shows "sorted_wrt (\<lambda>a b. float_ge (f a) (f b)) (insert_desc f x ds)"
proof -
  define tw where "tw = takeWhile (\<lambda>e. float_lt (f x) (f e)) ds"
  define dw where "dw = dropWhile (\<lambda>e. float_lt (f x) (f e)) ds"
  have ds: "ds = tw @ dw" unfolding tw_def dw_def by (rule takeWhile_dropWhile_id[symmetric])
  have ins: "insert_desc f x ds = tw @ x # dw" unfolding tw_def dw_def insert_desc_def by (rule refl)
  have left: "\<forall>e \<in> set tw. float_ge (f e) (f x)"
  proof
    fix e assume e: "e \<in> set tw"
    then have "float_lt (f x) (f e)" unfolding tw_def by (rule set_takeWhileD[THEN conjunct2])
    then have "\<not> float_lt (f e) (f x)" by (rule float_lt_asym)
    moreover from e have "e \<in> set ds" unfolding ds by simp
    ultimately show "float_ge (f e) (f x)" using assms(2,3) by (simp add: float_ge_def)
  qed
  have right: "\<forall>e \<in> set dw. float_ge (f x) (f e)"
  proof
    fix e assume e: "e \<in> set dw"
    then have "\<not> float_lt (f x) (f e)"
      unfolding dw_def by (rule dropWhile_below[OF assms(1,2), THEN bspec])
    moreover from e have "e \<in> set ds" unfolding ds by simp
    ultimately show "float_ge (f x) (f e)" using assms(2,3) by (simp add: float_ge_def)
  qed
  from assms(1) have "sorted_wrt (\<lambda>a b. float_ge (f a) (f b)) (tw @ dw)" unfolding ds .
  with left right have "sorted_wrt (\<lambda>a b. float_ge (f a) (f b)) (tw @ x # dw)"
    by (auto simp: sorted_wrt_append)
  then show ?thesis unfolding ins .
qed

lemma sorted_sorted_reverse:
  "\<forall>x \<in> set xs. \<not> is_nan (f x) \<Longrightarrow>
     sorted_wrt (\<lambda>a b. float_ge (f a) (f b)) (sorted_reverse f xs)"
proof (induction xs)
  case Nil
  then show ?case by (simp add: sorted_reverse_def)
next
  case (Cons x xs)
  have "sorted_wrt (\<lambda>a b. float_ge (f a) (f b)) (insert_desc f x (sorted_reverse f xs))"
    using Cons by (intro sorted_insert_desc) (simp_all add: set_sorted_reverse)
  then show ?case by (simp add: sorted_reverse_def)
qed

lemma filter_insert_desc:
  "filter (\<lambda>d. f d = k) (insert_desc f x ds) =
     (if f x = k then x # filter (\<lambda>d. f d = k) ds else filter (\<lambda>d. f d = k) ds)"
proof -
  let ?P = "\<lambda>e. float_lt (f x) (f e)"
  let ?Q = "\<lambda>d. f d = k"
  have split: "filter ?Q (takeWhile ?P ds) @ filter ?Q (dropWhile ?P ds) = filter ?Q ds"
    by (simp only: filter_append[symmetric] takeWhile_dropWhile_id)
  have "filter ?Q (takeWhile ?P ds) = []" if "f x = k"
  proof -
    have "\<not> ?Q e" if "e \<in> set (takeWhile ?P ds)" for e
      using set_takeWhileD[OF that] \<open>f x = k\<close> float_lt_irrefl[of k] by auto
    then show ?thesis by (simp add: filter_empty_conv)
  qed
  with split show ?thesis by (auto simp: insert_desc_def)
qed

lemma stable_sorted_reverse:
  "filter (\<lambda>d. f d = k) (sorted_reverse f xs) = filter (\<lambda>d. f d = k) xs"
proof (induction xs)
  case Nil
  then show ?case by (simp add: sorted_reverse_def)
next
  case (Cons x xs)
  have "filter (\<lambda>d. f d = k) (insert_desc f x (sorted_reverse f xs)) =
          (if f x = k then x # filter (\<lambda>d. f d = k) (sorted_reverse f xs)
           else filter (\<lambda>d. f d = k) (sorted_reverse f xs))"
    by (rule filter_insert_desc)
  with Cons show ?case by (simp add: sorted_reverse_def)
qed

lemma nan_not_descending:
  assumes "x \<in> set ys" and "is_nan (f x)" and "2 \<le> length ys"
  shows "\<not> sorted_wrt (\<lambda>a b. float_ge (f a) (f b)) ys"
proof
  assume s: "sorted_wrt (\<lambda>a b. float_ge (f a) (f b)) ys"
  from assms(1) obtain n where n: "n < length ys" "ys ! n = x" by (auto simp: in_set_conv_nth)
  show False
  proof (cases n)
    case 0
    have "float_ge (f (ys ! 0)) (f (ys ! 1))"
      using sorted_wrt_nth_less[OF s, of 0 1] assms(3) by simp
    with n 0 assms(2) show False by (simp add: float_ge_def)
  next
    case (Suc m)
    have "float_ge (f (ys ! 0)) (f (ys ! n))"
      using sorted_wrt_nth_less[OF s, of 0 n] n(1) Suc by simp
    with n assms(2) show False by (simp add: float_ge_def)
  qed
qed

lemma length_assign_scores: "length (assign_scores scores ds) = length ds"
  by (simp add: assign_scores_def)

lemma nth_assign_scores:
  "i < length ds \<Longrightarrow>
     assign_scores scores ds ! i =
       (ds ! i)\<lparr>rerank_score := Some (if i < length scores then scores ! i else Finite 0)\<rparr>"
  by (simp add: assign_scores_def nth_enumerate_eq)

lemma rerank_pairs_nonempty: "documents \<noteq> [] \<Longrightarrow> rerank_pairs U R query documents \<noteq> []"
  by (simp add: rerank_pairs_def)

lemma rerank_documents_scored:
  assumes "documents \<noteq> []"
    and "load_reranker_model R svc = (Some reranker, svc')"
    and "reranker (rerank_pairs U R query documents) = Some scores"
  shows "rerank_documents U R svc query documents top_k =
           (py_prefix top_k (sorted_reverse score_of (assign_scores scores documents)), svc')"
  using assms rerank_pairs_nonempty[OF assms(1), of U R query]
  by (simp add: rerank_documents_def rerank_try_def Let_def)

lemma rerank_documents_unavailable:
  assumes "documents \<noteq> []" and "fst (load_reranker_model R svc) = None"
  shows "fst (rerank_documents U R svc query documents top_k) = py_prefix top_k documents"
  using assms by (cases "load_reranker_model R svc") (simp add: rerank_documents_def)

lemma rerank_documents_failed:
  assumes "documents \<noteq> []" and "fst (load_reranker_model R svc) = Some reranker"
    and "reranker (rerank_pairs U R query documents) = None"
  shows "fst (rerank_documents U R svc query documents top_k) = py_prefix top_k documents"
  using assms rerank_pairs_nonempty[OF assms(1), of U R query]
  by (cases "load_reranker_model R svc") (simp add: rerank_documents_def rerank_try_def Let_def)

lemma advanced_search_cases:
  "fst (advanced_search U R svc bot_id query vector_results top_k) =
     (if candidates_list R vector_results = [] then []
      else if use_reranker R then
        py_prefix top_k (fst (rerank_documents U R svc query (candidates_list R vector_results)
           (min (top_k * 3) (int (length (candidates_list R vector_results))))))
      else py_prefix top_k (candidates_list R vector_results))"
  by (simp add: advanced_search_def Let_def split: prod.split)


text \<open>
  Claim C4: the deduplication of \<open>advanced_search\<close> returns at most one document for each
  stringified id; the documents it returns are in the order of the input (a subsequence
  of it); each has a non-empty stringified id, so a document whose id is missing or
  stringifies to the empty string is dropped, and is the first document of the input
  with that id; every non-empty stringified id of the input is kept; the result is
  no longer than the input; and the result is the list of the first-seen documents, each
  at the place of its first occurrence: the input documents whose stringified id is not
  empty and is the id of no earlier input document, in input order.
\<close>

theorem dedup_first_seen:
  "distinct (map (id_key R) (candidates_list R ds))
   \<and> subseq (candidates_list R ds) ds
   \<and> (\<forall>d \<in> set (candidates_list R ds).
         id_key R d \<noteq> [] \<and> find (\<lambda>e. id_key R e = id_key R d) ds = Some d)
   \<and> (\<forall>d \<in> set ds. id_key R d \<noteq> [] \<longrightarrow>
         id_key R d \<in> set (map (id_key R) (candidates_list R ds)))
   \<and> length (candidates_list R ds) \<le> length ds
   \<and> candidates_list R ds = first_seen R ds"
proof (intro conjI ballI impI)
  show "distinct (map (id_key R) (candidates_list R ds))" by (rule candidates_distinct)
  show "subseq (candidates_list R ds) ds" by (rule candidates_subseq)
  show "length (candidates_list R ds) \<le> length ds" by (rule candidates_length)
  show "candidates_list R ds = first_seen R ds" by (rule candidates_first_seen)
next
  fix d assume "d \<in> set (candidates_list R ds)"
  then show "id_key R d \<noteq> []" by (rule candidates_nonempty_keys)
next
  fix d assume "d \<in> set (candidates_list R ds)"
  then show "find (\<lambda>e. id_key R e = id_key R d) ds = Some d" by (rule candidates_first)
next
  fix d assume "d \<in> set ds" "id_key R d \<noteq> []"
  then show "id_key R d \<in> set (map (id_key R) (candidates_list R ds))"
    by (rule candidates_covers)
qed

theorem dedup_first_seen_witness:
  "candidates_list (str_runtime False None)
      [id_doc (py ''7'') (py ''a''), anon_doc (py ''b''), id_doc [] (py ''c''),
       id_doc (py ''2'') (py ''e''), id_doc (py ''7'') (py ''a'')]
     = [id_doc (py ''7'') (py ''a''), id_doc (py ''2'') (py ''e'')]
   \<and> first_seen (str_runtime False None)
      [id_doc (py ''7'') (py ''a''), anon_doc (py ''b''), id_doc [] (py ''c''),
       id_doc (py ''2'') (py ''e''), id_doc (py ''7'') (py ''a'')]
     = [id_doc (py ''7'') (py ''a''), id_doc (py ''2'') (py ''e'')]
   \<and> find (\<lambda>e. id_key (str_runtime False None) e = py ''7'')
        [id_doc (py ''7'') (py ''a''), anon_doc (py ''b''), id_doc [] (py ''c''),
         id_doc (py ''2'') (py ''e''), id_doc (py ''7'') (py ''a'')]
       = Some (id_doc (py ''7'') (py ''a''))"
proof -
  let ?R = "str_runtime False None"
  let ?ds = "[id_doc (py ''7'') (py ''a''), anon_doc (py ''b''), id_doc [] (py ''c''),
       id_doc (py ''2'') (py ''e''), id_doc (py ''7'') (py ''a'')]"
  have e: "first_seen ?R ?ds = [id_doc (py ''7'') (py ''a''), id_doc (py ''2'') (py ''e'')]"
    by code_simp
  have k: "id_key ?R (id_doc (py ''7'') (py ''a'')) = py ''7''"
    by code_simp
  note t = dedup_first_seen[of ?R ?ds]
  have c: "candidates_list ?R ?ds = [id_doc (py ''7'') (py ''a''), id_doc (py ''2'') (py ''e'')]"
    using t[THEN conjunct2, THEN conjunct2, THEN conjunct2, THEN conjunct2, THEN conjunct2]
    by (simp only: e)
  have "\<forall>d \<in> set (candidates_list ?R ?ds).
          id_key ?R d \<noteq> [] \<and> find (\<lambda>e. id_key ?R e = id_key ?R d) ?ds = Some d"
    by (rule t[THEN conjunct2, THEN conjunct2, THEN conjunct1])
  then have "find (\<lambda>e. id_key ?R e = id_key ?R (id_doc (py ''7'') (py ''a''))) ?ds
               = Some (id_doc (py ''7'') (py ''a''))"
    unfolding c by simp
  then show ?thesis unfolding k using c e by simp
qed

text \<open>
  Claim C5, counterexample: the cross-encoder returns the scores \<open>1.0\<close>, NaN, \<open>2.0\<close> for
  three documents. \<open>sorted\<close> compares with \<open><\<close>, which is false at NaN, and leaves the
  three documents in their input order: the document of score \<open>1.0\<close> is returned before
  the document of score \<open>2.0\<close>. No order of the three scored documents is descending
  by \<open>>=\<close>.
\<close>

theorem rerank_nan_not_descending:
  "fst (rerank_documents ascii_db
          (str_runtime True (Some (fixed_encoder [Finite 1, NaN, Finite 2]))) fresh_service
          (py ''q'')
          [id_doc (py ''1'') (py ''a''), id_doc (py ''2'') (py ''b''),
           id_doc (py ''3'') (py ''c'')] 3)
     = [(id_doc (py ''1'') (py ''a''))\<lparr>rerank_score := Some (Finite 1)\<rparr>,
        (id_doc (py ''2'') (py ''b''))\<lparr>rerank_score := Some NaN\<rparr>,
        (id_doc (py ''3'') (py ''c''))\<lparr>rerank_score := Some (Finite 2)\<rparr>]
   \<and> float_lt (score_of ((id_doc (py ''1'') (py ''a''))\<lparr>rerank_score := Some (Finite 1)\<rparr>))
               (score_of ((id_doc (py ''3'') (py ''c''))\<lparr>rerank_score := Some (Finite 2)\<rparr>))
   \<and> \<not> (\<exists>ys. mset ys =
                 mset (assign_scores [Finite 1, NaN, Finite 2]
                         [id_doc (py ''1'') (py ''a''), id_doc (py ''2'') (py ''b''),
                          id_doc (py ''3'') (py ''c'')])
             \<and> sorted_wrt (\<lambda>a b. float_ge (score_of a) (score_of b)) ys)"
proof (intro conjI)
  let ?ds = "[id_doc (py ''1'') (py ''a''), id_doc (py ''2'') (py ''b''),
           id_doc (py ''3'') (py ''c'')]"
  let ?scored = "assign_scores [Finite 1, NaN, Finite 2] ?ds"
  show "fst (rerank_documents ascii_db
          (str_runtime True (Some (fixed_encoder [Finite 1, NaN, Finite 2]))) fresh_service
          (py ''q'') ?ds 3)
     = [(id_doc (py ''1'') (py ''a''))\<lparr>rerank_score := Some (Finite 1)\<rparr>,
        (id_doc (py ''2'') (py ''b''))\<lparr>rerank_score := Some NaN\<rparr>,
        (id_doc (py ''3'') (py ''c''))\<lparr>rerank_score := Some (Finite 2)\<rparr>]"
    by code_simp
  show "float_lt (score_of ((id_doc (py ''1'') (py ''a''))\<lparr>rerank_score := Some (Finite 1)\<rparr>))
               (score_of ((id_doc (py ''3'') (py ''c''))\<lparr>rerank_score := Some (Finite 2)\<rparr>))"
    by (simp add: score_of_def)
  have e: "?scored = [(id_doc (py ''1'') (py ''a''))\<lparr>rerank_score := Some (Finite 1)\<rparr>,
        (id_doc (py ''2'') (py ''b''))\<lparr>rerank_score := Some NaN\<rparr>,
        (id_doc (py ''3'') (py ''c''))\<lparr>rerank_score := Some (Finite 2)\<rparr>]"
    by code_simp
  show "\<not> (\<exists>ys. mset ys = mset ?scored
             \<and> sorted_wrt (\<lambda>a b. float_ge (score_of a) (score_of b)) ys)"
  proof
    assume "\<exists>ys. mset ys = mset ?scored
             \<and> sorted_wrt (\<lambda>a b. float_ge (score_of a) (score_of b)) ys"
    then obtain ys where ys: "mset ys = mset ?scored"
      and s: "sorted_wrt (\<lambda>a b. float_ge (score_of a) (score_of b)) ys" by (elim exE conjE)
    from ys have "set ys = set ?scored" by (rule mset_eq_setD)
    then have m: "(id_doc (py ''2'') (py ''b''))\<lparr>rerank_score := Some NaN\<rparr> \<in> set ys"
      unfolding e by simp
    from ys have "length ys = length ?scored" by (rule mset_eq_length)
    then have l: "2 \<le> length ys" by (simp add: length_assign_scores)
    have n: "is_nan (score_of ((id_doc (py ''2'') (py ''b''))\<lparr>rerank_score := Some NaN\<rparr>))"
      by (simp add: score_of_def)
    from nan_not_descending[where f = score_of, OF m n l] s show False by simp
  qed
qed

text \<open>
  Claim C5, amended: when the cross-encoder is available and returns a score list, the
  document at index \<open>i\<close> gets the score at index \<open>i\<close> as its \<open>rerank_score\<close>, or \<open>0.0\<close>
  when the score list is too short; the result is \<open>reranked[:top_k]\<close>, the first \<open>top_k\<close>
  documents for a \<open>top_k\<close> that is not negative, where \<open>reranked\<close> is a permutation of
  the scored documents; and when no assigned score is NaN, \<open>reranked\<close> is descending by
  \<open>rerank_score\<close>, with the documents of equal score in their order before the sort.
\<close>

theorem rerank_assigns_and_sorts:
  assumes "documents \<noteq> []"
    and "load_reranker_model R svc = (Some reranker, svc')"
    and "reranker (rerank_pairs U R query documents) = Some scores"
    and "scored = assign_scores scores documents"
    and "reranked = sorted_reverse score_of scored"
  shows "length scored = length documents
     \<and> (\<forall>i < length documents.
           scored ! i = (documents ! i)\<lparr>rerank_score :=
                           Some (if i < length scores then scores ! i else Finite 0)\<rparr>)
     \<and> mset reranked = mset scored
     \<and> ((\<forall>d \<in> set scored. \<not> is_nan (score_of d)) \<longrightarrow>
            sorted_wrt (\<lambda>a b. float_ge (score_of a) (score_of b)) reranked
          \<and> (\<forall>k. filter (\<lambda>d. score_of d = k) reranked = filter (\<lambda>d. score_of d = k) scored))
     \<and> fst (rerank_documents U R svc query documents top_k) = py_prefix top_k reranked
     \<and> (0 \<le> top_k \<longrightarrow>
           fst (rerank_documents U R svc query documents top_k) = take (nat top_k) reranked)"
proof -
  have r: "fst (rerank_documents U R svc query documents top_k) = py_prefix top_k reranked"
    using rerank_documents_scored[OF assms(1-3)] assms(4,5) by simp
  have p1: "length scored = length documents"
    unfolding assms(4) by (rule length_assign_scores)
  have p2: "\<forall>i < length documents.
              scored ! i = (documents ! i)\<lparr>rerank_score :=
                              Some (if i < length scores then scores ! i else Finite 0)\<rparr>"
    unfolding assms(4) by (simp add: nth_assign_scores)
  have p3: "mset reranked = mset scored"
    unfolding assms(5) by (rule mset_sorted_reverse)
  have p4: "(\<forall>d \<in> set scored. \<not> is_nan (score_of d)) \<longrightarrow>
            sorted_wrt (\<lambda>a b. float_ge (score_of a) (score_of b)) reranked
          \<and> (\<forall>k. filter (\<lambda>d. score_of d = k) reranked = filter (\<lambda>d. score_of d = k) scored)"
  proof (intro impI conjI allI)
    assume "\<forall>d \<in> set scored. \<not> is_nan (score_of d)"
    then show "sorted_wrt (\<lambda>a b. float_ge (score_of a) (score_of b)) reranked"
      unfolding assms(5) by (rule sorted_sorted_reverse)
  next
    fix k
    show "filter (\<lambda>d. score_of d = k) reranked = filter (\<lambda>d. score_of d = k) scored"
      unfolding assms(5) by (rule stable_sorted_reverse)
  qed
  have p6: "0 \<le> top_k \<longrightarrow>
              fst (rerank_documents U R svc query documents top_k) = take (nat top_k) reranked"
    unfolding r by (simp add: py_prefix_nonneg)
  show ?thesis using p1 p2 p3 p4 r p6 by (intro conjI)
qed

theorem rerank_assigns_and_sorts_witness:
  "fst (rerank_documents ascii_db
          (str_runtime True (Some (fixed_encoder [Finite 2, Finite 5, Finite 2]))) fresh_service
         (py ''q'')
         [id_doc (py ''1'') (py ''a''), id_doc (py ''2'') (py ''b''),
          id_doc (py ''3'') (py ''c''), id_doc (py ''4'') (py ''d'')] 3)
   = [(id_doc (py ''2'') (py ''b''))\<lparr>rerank_score := Some (Finite 5)\<rparr>,
      (id_doc (py ''1'') (py ''a''))\<lparr>rerank_score := Some (Finite 2)\<rparr>,
      (id_doc (py ''3'') (py ''c''))\<lparr>rerank_score := Some (Finite 2)\<rparr>]
   \<and> sorted_wrt (\<lambda>a b. float_ge (score_of a) (score_of b))
        (sorted_reverse score_of (assign_scores [Finite 2, Finite 5, Finite 2]
           [id_doc (py ''1'') (py ''a''), id_doc (py ''2'') (py ''b''),
            id_doc (py ''3'') (py ''c''), id_doc (py ''4'') (py ''d'')]))"
proof -
  let ?enc = "fixed_encoder [Finite 2, Finite 5, Finite 2]"
  let ?R = "str_runtime True (Some ?enc)"
  let ?ds = "[id_doc (py ''1'') (py ''a''), id_doc (py ''2'') (py ''b''),
          id_doc (py ''3'') (py ''c''), id_doc (py ''4'') (py ''d'')]"
  let ?scored = "assign_scores [Finite 2, Finite 5, Finite 2] ?ds"
  have a1: "?ds \<noteq> []" by simp
  have a2: "load_reranker_model ?R fresh_service
              = (Some ?enc, fresh_service\<lparr>reranker_model := Some ?enc\<rparr>)"
    by (simp add: load_reranker_model_def str_runtime_def fresh_service_def)
  have a3: "?enc (rerank_pairs ascii_db ?R (py ''q'') ?ds) = Some [Finite 2, Finite 5, Finite 2]"
    by (simp add: fixed_encoder_def)
  have ev: "py_prefix 3 (sorted_reverse score_of ?scored)
     = [(id_doc (py ''2'') (py ''b''))\<lparr>rerank_score := Some (Finite 5)\<rparr>,
        (id_doc (py ''1'') (py ''a''))\<lparr>rerank_score := Some (Finite 2)\<rparr>,
        (id_doc (py ''3'') (py ''c''))\<lparr>rerank_score := Some (Finite 2)\<rparr>]"
    by code_simp
  have nn: "\<forall>d \<in> set ?scored. \<not> is_nan (score_of d)"
    by code_simp
  note t = rerank_assigns_and_sorts[OF a1 a2 a3 refl refl, of 3]
  have "fst (rerank_documents ascii_db ?R fresh_service (py ''q'') ?ds 3)
          = py_prefix 3 (sorted_reverse score_of ?scored)"
    by (rule t[THEN conjunct2, THEN conjunct2, THEN conjunct2, THEN conjunct2, THEN conjunct1])
  moreover have "sorted_wrt (\<lambda>a b. float_ge (score_of a) (score_of b))
                   (sorted_reverse score_of ?scored)"
    using t[THEN conjunct2, THEN conjunct2, THEN conjunct2, THEN conjunct1] nn by simp
  ultimately show ?thesis by (simp only: ev)
qed

text \<open>
  Claim C6: for a non-empty document list, when the cross-encoder is unavailable
  (\<open>load_reranker_model\<close> returns \<open>None\<close>) or its call raises, \<open>rerank_documents\<close> returns
  \<open>documents[:top_k]\<close>, the first \<open>top_k\<close> documents in their input order for a \<open>top_k\<close>
  that is not negative. The function returns a list on every path, so no error reaches
  the caller.
\<close>

theorem rerank_passthrough:
  assumes "documents \<noteq> []"
    and "fst (load_reranker_model R svc) = None
         \<or> (\<exists>reranker. fst (load_reranker_model R svc) = Some reranker
                \<and> reranker (rerank_pairs U R query documents) = None)"
  shows "fst (rerank_documents U R svc query documents top_k) = py_prefix top_k documents
     \<and> (0 \<le> top_k \<longrightarrow>
           fst (rerank_documents U R svc query documents top_k) = take (nat top_k) documents)"
proof -
  have "fst (rerank_documents U R svc query documents top_k) = py_prefix top_k documents"
    using assms(2)
  proof (elim disjE exE conjE)
    assume n: "fst (load_reranker_model R svc) = None"
    show ?thesis by (rule rerank_documents_unavailable[OF assms(1) n])
  next
    fix reranker
    assume l: "fst (load_reranker_model R svc) = Some reranker"
      and f: "reranker (rerank_pairs U R query documents) = None"
    show ?thesis by (rule rerank_documents_failed[OF assms(1) l f])
  qed
  then show ?thesis by (simp add: py_prefix_nonneg)
qed

theorem rerank_passthrough_witness:
  "fst (rerank_documents ascii_db (str_runtime False None) fresh_service (py ''q'')
          [id_doc (py ''1'') (py ''a''), id_doc (py ''2'') (py ''b''),
           id_doc (py ''3'') (py ''c'')] 2)
     = [id_doc (py ''1'') (py ''a''), id_doc (py ''2'') (py ''b'')]
   \<and> fst (rerank_documents ascii_db (str_runtime True (Some failing_encoder)) fresh_service
          (py ''q'')
          [id_doc (py ''1'') (py ''a''), id_doc (py ''2'') (py ''b''),
           id_doc (py ''3'') (py ''c'')] 2)
     = [id_doc (py ''1'') (py ''a''), id_doc (py ''2'') (py ''b'')]"
proof -
  let ?ds = "[id_doc (py ''1'') (py ''a''), id_doc (py ''2'') (py ''b''),
           id_doc (py ''3'') (py ''c'')]"
  have a1: "?ds \<noteq> []" by simp
  have off: "fst (load_reranker_model (str_runtime False None) fresh_service) = None"
    by (simp add: load_reranker_model_def str_runtime_def fresh_service_def)
  have on: "fst (load_reranker_model (str_runtime True (Some failing_encoder)) fresh_service)
              = Some failing_encoder"
    by (simp add: load_reranker_model_def str_runtime_def fresh_service_def)
  have raises: "failing_encoder
       (rerank_pairs ascii_db (str_runtime True (Some failing_encoder)) (py ''q'') ?ds) = None"
    by (simp add: failing_encoder_def)
  have ev: "py_prefix 2 ?ds = [id_doc (py ''1'') (py ''a''), id_doc (py ''2'') (py ''b'')]"
    by code_simp
  have h1: "fst (load_reranker_model (str_runtime False None) fresh_service) = None
      \<or> (\<exists>reranker. fst (load_reranker_model (str_runtime False None) fresh_service) = Some reranker
            \<and> reranker (rerank_pairs ascii_db (str_runtime False None) (py ''q'') ?ds) = None)"
    using off by (rule disjI1)
  have h2: "fst (load_reranker_model (str_runtime True (Some failing_encoder)) fresh_service) = None
      \<or> (\<exists>reranker. fst (load_reranker_model (str_runtime True (Some failing_encoder))
                            fresh_service) = Some reranker
            \<and> reranker (rerank_pairs ascii_db (str_runtime True (Some failing_encoder))
                          (py ''q'') ?ds) = None)"
    using on raises by blast
  have w1: "fst (rerank_documents ascii_db (str_runtime False None) fresh_service (py ''q'') ?ds 2)
              = py_prefix 2 ?ds"
    by (rule rerank_passthrough[OF a1 h1, THEN conjunct1])
  have w2: "fst (rerank_documents ascii_db (str_runtime True (Some failing_encoder)) fresh_service
                  (py ''q'') ?ds 2) = py_prefix 2 ?ds"
    by (rule rerank_passthrough[OF a1 h2, THEN conjunct1])
  show ?thesis unfolding w1 w2 ev by simp
qed

text \<open>
  Claim C7: \<open>advanced_search\<close> deduplicates the candidates by id and returns the empty
  list when none is left; with reranking enabled it returns \<open>reranked[:top_k]\<close> where
  \<open>reranked\<close> is the result of \<open>rerank_documents\<close> on the deduplicated candidates with
  \<open>rerank_k = min(top_k * 3, len(candidates))\<close>; with reranking disabled it returns the
  first \<open>top_k\<close> deduplicated candidates, in the order of their arrival.
\<close>

theorem advanced_search_steps:
  assumes "cands = candidates_list R vector_results"
    and "found = fst (advanced_search U R svc bot_id query vector_results top_k)"
  shows "(cands = [] \<longrightarrow> found = [])
     \<and> (cands \<noteq> [] \<and> use_reranker R \<longrightarrow>
           found = py_prefix top_k
                     (fst (rerank_documents U R svc query cands
                             (min (top_k * 3) (int (length cands))))))
     \<and> (cands \<noteq> [] \<and> \<not> use_reranker R \<longrightarrow>
           found = py_prefix top_k cands \<and> subseq found vector_results
           \<and> (0 \<le> top_k \<longrightarrow> found = take (nat top_k) cands))"
proof -
  have "sublist (py_prefix top_k cands) cands"
    by (simp add: py_prefix_def)
  then have "subseq (py_prefix top_k cands) cands"
    by (rule sublist_imp_subseq)
  then have "subseq (py_prefix top_k cands) vector_results"
    using candidates_subseq[of R vector_results] assms(1) subseq_order.order_trans by blast
  then show ?thesis
    unfolding assms by (simp add: advanced_search_cases py_prefix_nonneg)
qed


theorem advanced_search_steps_witness:
  "fst (advanced_search ascii_db (str_runtime False None) fresh_service (py ''bot'') (py ''q'')
          [id_doc (py ''7'') (py ''a''), id_doc (py ''7'') (py ''b''), id_doc (py ''2'') (py ''c'')] 1)
     = [id_doc (py ''7'') (py ''a'')]
   \<and> fst (advanced_search ascii_db (str_runtime True (Some (fixed_encoder [Finite 1, Finite 4]))) fresh_service
          (py ''bot'') (py ''q'')
          [id_doc (py ''7'') (py ''a''), id_doc (py ''7'') (py ''b''), id_doc (py ''2'') (py ''c'')] 1)
     = [(id_doc (py ''2'') (py ''c''))\<lparr>rerank_score := Some (Finite 4)\<rparr>]
   \<and> fst (advanced_search ascii_db (str_runtime False None) fresh_service (py ''bot'') (py ''q'')
          [anon_doc (py ''a'')] 1)
     = []"
proof -
  let ?off = "str_runtime False None"
  let ?on = "str_runtime True (Some (fixed_encoder [Finite 1, Finite 4]))"
  let ?vr = "[id_doc (py ''7'') (py ''a''), id_doc (py ''7'') (py ''b''), id_doc (py ''2'') (py ''c'')]"
  let ?cs = "[id_doc (py ''7'') (py ''a''), id_doc (py ''2'') (py ''c'')]"
  have c_off: "candidates_list ?off ?vr = ?cs" by code_simp
  have c_on: "candidates_list ?on ?vr = ?cs" by code_simp
  have c_none: "candidates_list ?off [anon_doc (py ''a'')] = []" by code_simp
  have u_off: "\<not> use_reranker ?off" by (simp add: str_runtime_def)
  have u_on: "use_reranker ?on" by (simp add: str_runtime_def)
  have e1: "py_prefix 1 ?cs = [id_doc (py ''7'') (py ''a'')]" by code_simp
  have rr: "py_prefix 1 (fst (rerank_documents ascii_db ?on fresh_service (py ''q'') ?cs
                                (min (1 * 3) (int (length ?cs)))))
              = [(id_doc (py ''2'') (py ''c''))\<lparr>rerank_score := Some (Finite 4)\<rparr>]"
    by code_simp
  have w1: "fst (advanced_search ascii_db ?off fresh_service (py ''bot'') (py ''q'') ?vr 1)
              = py_prefix 1 ?cs"
    using advanced_search_steps[OF refl refl, of ?off ?vr ascii_db fresh_service "py ''bot''"
        "py ''q''" 1, THEN conjunct2, THEN conjunct2] u_off
    unfolding c_off by simp
  have w2: "fst (advanced_search ascii_db ?on fresh_service (py ''bot'') (py ''q'') ?vr 1)
              = py_prefix 1 (fst (rerank_documents ascii_db ?on fresh_service (py ''q'') ?cs
                                (min (1 * 3) (int (length ?cs)))))"
    using advanced_search_steps[OF refl refl, of ?on ?vr ascii_db fresh_service "py ''bot''"
        "py ''q''" 1, THEN conjunct2, THEN conjunct1] u_on
    unfolding c_on by simp
  have w3: "fst (advanced_search ascii_db ?off fresh_service (py ''bot'') (py ''q'')
                  [anon_doc (py ''a'')] 1) = []"
    using advanced_search_steps[OF refl refl, of ?off "[anon_doc (py ''a'')]" ascii_db
        fresh_service "py ''bot''" "py ''q''" 1, THEN conjunct1]
    unfolding c_none by simp
  show ?thesis unfolding w1 w2 w3 e1 rr by simp
qed

section \<open>Properties of the context assembler\<close>

lemma filter_step_cases:
  "filter_step U qk mh mx acc doc = acc \<or> filter_step U qk mh mx acc doc = acc @ [doc]"
  by (simp add: filter_step_def Let_def)

lemma filter_step_first: "filter_step U qk mh mx [] doc = [doc]"
  by (simp add: filter_step_def Let_def)

lemma filter_step_keeps_hd:
  "acc \<noteq> [] \<Longrightarrow> filter_step U qk mh mx acc doc \<noteq> [] \<and> hd (filter_step U qk mh mx acc doc) = hd acc"
  using filter_step_cases[of U qk mh mx acc doc] by auto

lemma filter_foldl_keeps_hd:
  "acc \<noteq> [] \<Longrightarrow> foldl (filter_step U qk mh mx) acc ds \<noteq> []
      \<and> hd (foldl (filter_step U qk mh mx) acc ds) = hd acc"
proof (induction ds arbitrary: acc)
  case Nil
  then show ?case by simp
next
  case (Cons d ds)
  have "filter_step U qk mh mx acc d \<noteq> []" and "hd (filter_step U qk mh mx acc d) = hd acc"
    using filter_step_keeps_hd[OF Cons.prems] by auto
  then show ?case using Cons.IH[of "filter_step U qk mh mx acc d"] by simp
qed

lemma filter_pass_first:
  "documents \<noteq> [] \<Longrightarrow>
     filter_pass U query documents \<noteq> [] \<and> hd (filter_pass U query documents) = hd documents"
proof -
  assume "documents \<noteq> []"
  then obtain d ds where dd: "documents = d # ds" by (cases documents) auto
  show ?thesis
    unfolding filter_pass_def
    using filter_foldl_keeps_hd[of "[d]" U "extract_keywords U query" "main_header_of U documents"
        "max_rerank_of documents" ds]
    by (simp add: dd filter_step_first)
qed

lemma recall_loop_nonempty:
  "acc \<noteq> [] \<Longrightarrow> recall_loop m acc ds \<noteq> []"
  by (induction ds arbitrary: acc) (simp_all add: Let_def)

lemma recall_net_nonempty: "acc \<noteq> [] \<Longrightarrow> recall_net m documents acc \<noteq> []"
  by (simp add: recall_net_def recall_loop_nonempty)


text \<open>
  Claim C10: for a non-empty document list the filter pass keeps the first document,
  whatever the query, the texts and the scores are, so the filtered list is not empty;
  it stays non-empty through the recall safety net, and the total fallback leaves it
  unchanged (its branch \<open>if not filtered_docs\<close> is never taken).
\<close>

theorem first_document_always_kept:
  assumes "documents \<noteq> []"
  shows "filter_pass U query documents \<noteq> []
     \<and> hd (filter_pass U query documents) = hd documents
     \<and> recall_net min_docs documents (filter_pass U query documents) \<noteq> []
     \<and> total_fallback min_docs documents
          (recall_net min_docs documents (filter_pass U query documents))
        = recall_net min_docs documents (filter_pass U query documents)"
proof -
  have f: "filter_pass U query documents \<noteq> []"
    and h: "hd (filter_pass U query documents) = hd documents"
    using filter_pass_first[OF assms, of U query] by auto
  have r: "recall_net min_docs documents (filter_pass U query documents) \<noteq> []"
    using f by (rule recall_net_nonempty)
  have t: "total_fallback min_docs documents
             (recall_net min_docs documents (filter_pass U query documents))
           = recall_net min_docs documents (filter_pass U query documents)"
    using r by (simp add: total_fallback_def)
  show ?thesis using f h r t by (intro conjI)
qed

theorem first_document_always_kept_witness:
  "filter_pass ascii_db (py ''zebra'')
      [(id_doc (py ''1'') (py ''first text.''))\<lparr>rerank_score := Some (Finite 0.1)\<rparr>,
       (id_doc (py ''2'') (py ''other words.''))\<lparr>rerank_score := Some (Finite 1)\<rparr>]
     = [(id_doc (py ''1'') (py ''first text.''))\<lparr>rerank_score := Some (Finite 0.1)\<rparr>]
   \<and> hd (filter_pass ascii_db (py ''zebra'')
      [(id_doc (py ''1'') (py ''first text.''))\<lparr>rerank_score := Some (Finite 0.1)\<rparr>,
       (id_doc (py ''2'') (py ''other words.''))\<lparr>rerank_score := Some (Finite 1)\<rparr>])
     = (id_doc (py ''1'') (py ''first text.''))\<lparr>rerank_score := Some (Finite 0.1)\<rparr>"
proof -
  let ?ds = "[(id_doc (py ''1'') (py ''first text.''))\<lparr>rerank_score := Some (Finite 0.1)\<rparr>,
       (id_doc (py ''2'') (py ''other words.''))\<lparr>rerank_score := Some (Finite 1)\<rparr>]"
  have ne: "?ds \<noteq> []" by simp
  have e: "filter_pass ascii_db (py ''zebra'') ?ds
             = [(id_doc (py ''1'') (py ''first text.''))\<lparr>rerank_score := Some (Finite 0.1)\<rparr>]"
    by code_simp
  have "hd (filter_pass ascii_db (py ''zebra'') ?ds) = hd ?ds"
    by (rule first_document_always_kept[OF ne, of ascii_db "py ''zebra''" 8,
          THEN conjunct2, THEN conjunct1])
  then show ?thesis using e by simp
qed

text \<open>
  Claim C1, at a failing input: two documents \<open>{'text': 'aaa.'}\<close> and \<open>{'text': 'bbb.'}\<close>
  with \<open>max_chars = 8\<close>. The budget counts the texts only (4 + 4), so both are accepted,
  and the separator of the join makes a context of 10 characters.
\<close>

theorem build_context_exceeds_max_chars:
  "build_context ascii_db [] [id_doc (py ''1'') (py ''aaa.''), id_doc (py ''2'') (py ''bbb.'')]
       8 30 8
     = py ''aaa.'' @ [10, 10] @ py ''bbb.''
   \<and> length (py ''aaa.'' @ [10, 10] @ py ''bbb.'') = 10"
  by code_simp

text \<open>
  When the packing loop truncates a text, the truncated text is the last part, so the
  context ends with the marker.
\<close>

lemma join_snoc:
  "join sep (xs @ [y]) = (if xs = [] then y else join sep xs @ sep @ y)"
  by (induction sep xs rule: join.induct) auto

lemma pack_truncates_marker:
  "pack_truncates U max_chars max_docs parts tot ds \<Longrightarrow>
     \<exists>pre x. pack U max_chars max_docs parts tot ds = pre @ [x @ py ''...'']"
proof (induction U max_chars max_docs parts tot ds rule: pack.induct)
  case (1 U max_chars max_docs context_parts total_chars)
  then show ?case by simp
next
  case (2 U max_chars max_docs context_parts total_chars doc rest)
  then show ?case by (auto simp add: Let_def split: if_splits)
qed

lemma truncated_context_ends_with_marker:
  assumes "documents \<noteq> []"
    and "pack_truncates U max_chars max_docs [] 0
           (dedup_texts U (total_fallback min_docs documents
              (recall_net min_docs documents (filter_pass U query documents))))"
  shows "suffix (py ''...'') (build_context U query documents max_chars max_docs min_docs)"
proof -
  obtain pre x where
    "pack U max_chars max_docs [] 0
       (dedup_texts U (total_fallback min_docs documents
          (recall_net min_docs documents (filter_pass U query documents))))
     = pre @ [x @ py ''...'']"
    using pack_truncates_marker[OF assms(2)] by blast
  then have "build_context U query documents max_chars max_docs min_docs
               = join [10, 10] (pre @ [x @ py ''...''])"
    using assms(1) by (simp add: build_context_def Let_def)
  then show ?thesis by (simp add: join_snoc suffix_def)
qed

section \<open>Properties of the chunker\<close>

text \<open>
  Claim C2, at a failing input: three lines of six characters, \<open>chunk_size = 10\<close> and
  \<open>overlap = 8\<close>. No line is longer than \<open>chunk_size\<close>, yet the second chunk, the overlap
  tail of the first followed by the second line, has 13 characters, and the third has 15.
\<close>

theorem chunk_exceeds_chunk_size:
  "split_text_semantic ascii_db whole_line
       (py ''aaaaaa'' @ [10] @ py ''bbbbbb'' @ [10] @ py ''cccccc'') 10 8
     = [py ''aaaaaa'', py ''aaaaaa bbbbbb'', py ''a bbbbbb cccccc'']
   \<and> split_text_semantic ascii_db no_punkt
       (py ''aaaaaa'' @ [10] @ py ''bbbbbb'' @ [10] @ py ''cccccc'') 10 8
     = [py ''aaaaaa'', py ''aaaaaa bbbbbb'', py ''a bbbbbb cccccc'']
   \<and> length (py ''aaaaaa bbbbbb'') = 13"
  by code_simp
























end
